theory Spec2Isabelle
  imports Main "HOL-Library.Sublist" "HOL-Library.Word"
begin

section \<open>Strings\<close>

text \<open>
  A JavaScript string is modelled as a \<^typ>\<open>string\<close>: a list of code units below 256.
  \<open>startsWith\<close>, \<open>endsWith\<close> and \<open>slice\<close> are the methods of \<open>String.prototype\<close>
  the sources call.
\<close>

definition startsWith :: "string \<Rightarrow> string \<Rightarrow> bool" where
  "startsWith s p = (take (length p) s = p)"

definition endsWith :: "string \<Rightarrow> string \<Rightarrow> bool" where
  "endsWith s p = (length p \<le> length s \<and> drop (length s - length p) s = p)"

text \<open>\<open>s.slice(0, -n)\<close>: everything but the last \<open>n\<close> code units (nothing when \<open>s\<close> is shorter).\<close>

definition slice_to_neg :: "string \<Rightarrow> nat \<Rightarrow> string" where
  "slice_to_neg s n = take (length s - n) s"

text \<open>\<open>s.slice(-n)\<close>: the last \<open>n\<close> code units (all of \<open>s\<close> when it is shorter).\<close>

definition slice_from_neg :: "string \<Rightarrow> nat \<Rightarrow> string" where
  "slice_from_neg s n = drop (length s - n) s"

text \<open>\<open>s.split(c)\<close> for a separator of one code unit, and \<open>parts.join('/')\<close>.\<close>

fun split_on :: "char \<Rightarrow> string \<Rightarrow> string list" where
  "split_on sep [] = [[]]"
| "split_on sep (c # s) =
     (if c = sep then [] # split_on sep s
      else (case split_on sep s of [] \<Rightarrow> [[c]] | l # ls \<Rightarrow> (c # l) # ls))"

fun join_sep :: "string list \<Rightarrow> string" where
  "join_sep [] = []"
| "join_sep [x] = x"
| "join_sep (x # y # rest) = x @ ''/'' @ join_sep (y # rest)"

section \<open>runner/types.ts: the environment allow-list\<close>

definition ALLOWED_ENV_VARS :: "string list" where
  "ALLOWED_ENV_VARS =
     [''CI'', ''NODE_ENV'', ''HOME'', ''PATH'', ''TERM'', ''LANG'', ''LC_ALL'', ''TZ'']"

text \<open>
  An object used as a dictionary keeps its keys in insertion order: it is an association
  list, and \<open>obj[key] = v\<close> replaces the value of a key that is present and appends a
  new key otherwise.
\<close>

fun obj_set :: "(string \<times> 'v) list \<Rightarrow> string \<Rightarrow> 'v \<Rightarrow> (string \<times> 'v) list" where
  "obj_set [] key v = [(key, v)]"
| "obj_set ((k, w) # kvs) key v =
     (if k = key then (k, v) # kvs else (k, w) # obj_set kvs key v)"

text \<open>
  The input \<open>Record<string, string | undefined>\<close> is a partial map: \<open>None\<close> is a key that
  is missing or \<open>undefined\<close>. \<open>if (env[key])\<close> is the truthiness of a string: it is not empty.
\<close>

fun filterEnv_loop ::
  "string list \<Rightarrow> (string \<rightharpoonup> string) \<Rightarrow> (string \<times> string) list \<Rightarrow> (string \<times> string) list"
where
  "filterEnv_loop [] env filtered = filtered"
| "filterEnv_loop (key # keys) env filtered =
     (case env key of
        None \<Rightarrow> filterEnv_loop keys env filtered
      | Some v \<Rightarrow>
          if v \<noteq> [] then filterEnv_loop keys env (obj_set filtered key v)
          else filterEnv_loop keys env filtered)"

definition filterEnv :: "(string \<rightharpoonup> string) \<Rightarrow> (string \<times> string) list" where
  "filterEnv env = filterEnv_loop ALLOWED_ENV_VARS env []"

text \<open>\<open>DockerRunner.buildEnvArgs\<close>, for an explicit environment: one \<open>-e key=value\<close> per entry.\<close>

definition buildEnvArgs :: "(string \<rightharpoonup> string) \<Rightarrow> string list" where
  "buildEnvArgs env = concat (map (\<lambda>(key, v). [''-e'', key @ ''='' @ v]) (filterEnv env))"

section \<open>watcher/safety.ts: scope enforcement\<close>

record scope_check =
  passed :: bool
  violations :: "string list"

text \<open>The callback of \<open>allowedScope.some\<close>.\<close>

definition scope_entry_allows :: "string \<Rightarrow> string \<Rightarrow> bool" where
  "scope_entry_allows changedFile scopePath =
     (if changedFile = scopePath then True
      else if startsWith changedFile (scopePath @ ''/'') then True
      else if endsWith scopePath ''/*''
        then (let dir = slice_to_neg scopePath 2
              in if startsWith changedFile (dir @ ''/'') then True else False)
      else False)"

fun validateScope_loop :: "string list \<Rightarrow> string list \<Rightarrow> string list \<Rightarrow> string list" where
  "validateScope_loop allowedScope [] found = found"
| "validateScope_loop allowedScope (changedFile # rest) found =
     (let isAllowed = list_ex (scope_entry_allows changedFile) allowedScope
      in if \<not> isAllowed then validateScope_loop allowedScope rest (found @ [changedFile])
         else validateScope_loop allowedScope rest found)"

definition validateScope :: "string list \<Rightarrow> string list \<Rightarrow> scope_check" where
  "validateScope allowedScope actualChanges =
     (let found = validateScope_loop allowedScope actualChanges []
      in \<lparr>passed = (length found = 0), violations = found\<rparr>)"

text \<open>
  The matching rules in the words of the specification: exact match, directory prefix,
  or an entry ending in \<open>/*\<close> whose preceding directory is a prefix of the file.
\<close>

definition scope_admits :: "string list \<Rightarrow> string \<Rightarrow> bool" where
  "scope_admits scope file =
     (\<exists>S \<in> set scope.
        file = S \<or> prefix (S @ ''/'') file \<or> (\<exists>d. S = d @ ''/*'' \<and> prefix (d @ ''/'') file))"

section \<open>Errors\<close>

text \<open>
  An exception is a value. \<open>PathEscapeError\<close>, \<open>SymlinkError\<close> and \<open>TaskValidationError\<close>
  are the error classes of the sources, with their message (and the field of a
  validation error); \<open>SyntaxError\<close> is what \<open>JSON.parse\<close> throws, \<open>TypeError\<close> a property
  read on \<open>null\<close>, and \<open>SysError\<close> an error of the file system of the host with its code.
\<close>

datatype errno = ENOENT | ENOTDIR | EISDIR | ELOOP | EEXIST | ENOTEMPTY

datatype error =
    PathEscapeError string
  | SymlinkError string
  | TaskValidationError string "string option"
  | SyntaxError
  | TypeError
  | SysError errno

section \<open>safe/streamScanner.ts: the overlap-aware scanner\<close>

subsection \<open>The regular expressions of the catalogue\<close>

text \<open>
  Every regular expression of \<open>CORE_PATTERNS\<close> is a sequence of character classes, each
  under a greedy quantifier \<open>{lo,hi}\<close> (a literal character is a class under \<open>{1,1}\<close>,
  \<open>+\<close> is \<open>{1,}\<close>, \<open>*\<close> is \<open>{0,}\<close>, \<open>?\<close> is \<open>{0,1}\<close>). \<open>\s\<close> is the white space of
  ECMAScript among the code units below 256; \<open>.\<close> is every code unit but the line
  terminators.
\<close>

datatype cset = Single char | Range char char | WhiteSpace

datatype cclass = Lit char | OneOf "cset list" | NoneOf "cset list" | AnyChar

fun cset_has :: "cset \<Rightarrow> char \<Rightarrow> bool" where
  "cset_has (Single a) c = (c = a)"
| "cset_has (Range a b) c = ((of_char a :: nat) \<le> of_char c \<and> (of_char c :: nat) \<le> of_char b)"
| "cset_has WhiteSpace c = ((of_char c :: nat) \<in> {9, 10, 11, 12, 13, 32, 160})"

fun cclass_has :: "cclass \<Rightarrow> char \<Rightarrow> bool" where
  "cclass_has (Lit a) c = (c = a)"
| "cclass_has (OneOf cs) c = list_ex (\<lambda>s. cset_has s c) cs"
| "cclass_has (NoneOf cs) c = (\<not> list_ex (\<lambda>s. cset_has s c) cs)"
| "cclass_has AnyChar c = ((of_char c :: nat) \<notin> {10, 13})"

type_synonym regex = "(cclass \<times> nat \<times> nat option) list"

definition lit :: "string \<Rightarrow> regex" where
  "lit s = map (\<lambda>c. (Lit c, 1, Some 1)) s"

definition alnum :: "cset list" where
  "alnum = [Range CHR ''A'' CHR ''Z'', Range CHR ''a'' CHR ''z'', Range CHR ''0'' CHR ''9'']"

definition CORE_PATTERNS :: "(string \<times> regex) list" where
  "CORE_PATTERNS =
    [(''BEARER_TOKEN'',
        lit ''Bearer'' @ [(OneOf [WhiteSpace], 1, None),
          (OneOf (alnum @ [Single CHR ''-'', Single CHR ''_'', Single CHR ''.'']), 1, None)]),
     (''OPENAI_KEY'', lit ''sk-'' @ [(OneOf alnum, 10, None)]),
     (''GOOGLE_API_KEY'',
        lit ''AIza'' @ [(OneOf ([Range CHR ''0'' CHR ''9'', Range CHR ''A'' CHR ''Z'',
          Range CHR ''a'' CHR ''z'', Single CHR ''-'', Single CHR ''_'']), 20, None)]),
     (''GITHUB_PAT'', lit ''ghp_'' @ [(OneOf alnum, 36, Some 36)]),
     (''GITHUB_PAT_FINE'', lit ''github_pat_'' @ [(OneOf (alnum @ [Single CHR ''_'']), 22, None)]),
     (''AWS_ACCESS_KEY'',
        lit ''AKIA'' @ [(OneOf [Range CHR ''A'' CHR ''Z'', Range CHR ''0'' CHR ''9''], 16, Some 16)]),
     (''PRIVATE_KEY'', lit ''-----BEGIN'' @ [(AnyChar, 0, None)] @ lit ''PRIVATE KEY-----''),
     (''URL_WITH_CREDS'',
        lit ''http'' @ [(Lit CHR ''s'', 0, Some 1)] @ lit ''://'' @
        [(NoneOf [Single CHR '':'', WhiteSpace], 1, None), (Lit CHR '':'', 1, Some 1),
         (NoneOf [Single CHR ''@'', WhiteSpace], 1, None), (Lit CHR ''@'', 1, Some 1)])]"

definition OVERLAP_BUFFER_SIZE :: nat where
  "OVERLAP_BUFFER_SIZE = 8 * 1024"

subsection \<open>Matching\<close>

text \<open>The number of leading code units of the text that are in the class.\<close>

fun run_length :: "cclass \<Rightarrow> string \<Rightarrow> nat" where
  "run_length cl [] = 0"
| "run_length cl (c # s) = (if cclass_has cl c then Suc (run_length cl s) else 0)"

text \<open>
  The backtracking matcher of ECMAScript on these expressions: \<open>match_here r s\<close> is the
  length of the match of \<open>r\<close> that starts at the head of \<open>s\<close>. A greedy quantifier takes as
  many code units as it may, and gives them back one by one while the rest of the
  expression fails.
\<close>

function match_here :: "regex \<Rightarrow> string \<Rightarrow> nat option"
  and match_back :: "regex \<Rightarrow> string \<Rightarrow> nat \<Rightarrow> nat \<Rightarrow> nat option"
where
  "match_here [] s = Some 0"
| "match_here ((cl, lo, hi) # rest) s =
     (let n = run_length cl s;
          k = (case hi of None \<Rightarrow> n | Some h \<Rightarrow> min n h)
      in if k < lo then None else match_back rest s k lo)"
| "match_back rest s k lo =
     (case match_here rest (drop k s) of
        Some m \<Rightarrow> Some (k + m)
      | None \<Rightarrow> if k \<le> lo then None else match_back rest s (k - 1) lo)"
  by pat_completeness auto
termination
  by (relation "measures
        [(\<lambda>x. case x of Inl (r, s) \<Rightarrow> 2 * length r | Inr (r, s, k, lo) \<Rightarrow> 2 * length r + 1),
         (\<lambda>x. case x of Inl (r, s) \<Rightarrow> 0 | Inr (r, s, k, lo) \<Rightarrow> k)]") auto

text \<open>
  \<open>regex.exec(text)\<close> under the \<open>g\<close> flag: the first index from \<open>lastIndex\<close> on where the
  expression matches, with the length of the match; \<open>None\<close> is \<open>null\<close>.
\<close>

function exec_from :: "regex \<Rightarrow> string \<Rightarrow> nat \<Rightarrow> (nat \<times> nat) option" where
  "exec_from r text i =
     (if length text < i then None
      else case match_here r (drop i text) of
             Some m \<Rightarrow> Some (i, m)
           | None \<Rightarrow> exec_from r text (Suc i))"
  by pat_completeness auto
termination
  by (relation "measure (\<lambda>(r, text, i). Suc (length text) - i)") auto

lemma exec_from_bounds:
  "exec_from r s i = Some (j, m) \<Longrightarrow> i \<le> j \<and> j \<le> length s"
proof (induction r s i rule: exec_from.induct)
  case (1 r s i)
  show ?case
  proof (cases "match_here r (drop i s)")
    case None
    with "1.prems" have "exec_from r s (Suc i) = Some (j, m)" and "\<not> length s < i"
      by (auto split: if_splits)
    with "1.IH" None show ?thesis by fastforce
  next
    case (Some m')
    with "1.prems" show ?thesis by (auto split: if_splits)
  qed
qed

text \<open>
  The loop \<open>while ((match = pattern.regex.exec(text)) !== null)\<close>: the indices of the
  successive matches. After a match \<open>lastIndex\<close> is its end; after an empty match it does
  not move and the loop never ends, which is the result \<open>None\<close>.
\<close>

function exec_all :: "regex \<Rightarrow> string \<Rightarrow> nat \<Rightarrow> nat list option" where
  "exec_all r text lastIndex =
     (case exec_from r text lastIndex of
        None \<Rightarrow> Some []
      | Some (i, m) \<Rightarrow>
          if m = 0 then None
          else (case exec_all r text (i + m) of None \<Rightarrow> None | Some rest \<Rightarrow> Some (i # rest)))"
  by pat_completeness auto
termination
proof (relation "measure (\<lambda>(r, text, lastIndex). Suc (length text) - lastIndex)")
  show "wf (measure (\<lambda>(r, text, lastIndex). Suc (length text) - lastIndex))"
    by simp
next
  fix r :: regex and s :: string and lastIndex i m :: nat
  fix p :: "nat \<times> nat"
  assume "exec_from r s lastIndex = Some p" and "(i, m) = p" and "m \<noteq> 0"
  then have "exec_from r s lastIndex = Some (i, m)" by simp
  from exec_from_bounds [OF this] \<open>m \<noteq> 0\<close>
  show "((r, s, i + m), (r, s, lastIndex))
      \<in> measure (\<lambda>(r, text, lastIndex). Suc (length text) - lastIndex)"
    by simp arith
qed

subsection \<open>The scanner\<close>

record ScanMatch =
  pattern :: string
  line :: nat
  column :: nat

record ScanResult =
  matches :: "ScanMatch list"
  hasSecrets :: bool

record StreamScanner =
  overlapBuffer :: string
  patterns :: "(string \<times> regex) list"
  totalLines :: nat

text \<open>\<open>new StreamScanner()\<close>, with no additional pattern.\<close>

definition new_StreamScanner :: StreamScanner where
  "new_StreamScanner = \<lparr>overlapBuffer = [], patterns = CORE_PATTERNS, totalLines = 0\<rparr>"

text \<open>\<open>text.split('\n')\<close>.\<close>

definition split_nl :: "string \<Rightarrow> string list" where
  "split_nl s = split_on (CHR 0x0A) s"

definition match_at :: "string \<Rightarrow> string \<Rightarrow> nat \<Rightarrow> nat \<Rightarrow> ScanMatch" where
  "match_at name text lineOffset index =
     (let beforeMatch = take index text;
          lines = split_nl beforeMatch;
          lineInChunk = length lines - 1;
          col = length (last lines)
      in \<lparr>pattern = name, line = lineOffset + lineInChunk + 1, column = col + 1\<rparr>)"

fun findMatches_loop ::
  "(string \<times> regex) list \<Rightarrow> string \<Rightarrow> nat \<Rightarrow> ScanMatch list \<Rightarrow> ScanMatch list option"
where
  "findMatches_loop [] text lineOffset found = Some found"
| "findMatches_loop ((name, r) # ps) text lineOffset found =
     (case exec_all r text 0 of
        None \<Rightarrow> None
      | Some idxs \<Rightarrow>
          findMatches_loop ps text lineOffset (found @ map (match_at name text lineOffset) idxs))"

definition findMatches :: "StreamScanner \<Rightarrow> string \<Rightarrow> nat \<Rightarrow> ScanMatch list option" where
  "findMatches this text lineOffset = findMatches_loop (patterns this) text lineOffset []"

definition countNewlines :: "string \<Rightarrow> nat" where
  "countNewlines text = length (filter (\<lambda>c. c = CHR 0x0A) text)"

text \<open>
  \<open>scan\<close> returns its result and the scanner as it leaves it. The filter compares
  JavaScript numbers, so the difference \<open>lineOffset - overlapLines\<close> may be negative.
\<close>

definition scan :: "StreamScanner \<Rightarrow> string \<Rightarrow> (ScanResult \<times> StreamScanner) option" where
  "scan this chunk =
     (let combined = overlapBuffer this @ chunk;
          lineOffset = totalLines this
      in case findMatches this combined lineOffset of
           None \<Rightarrow> None
         | Some found \<Rightarrow>
            (let newLinesInChunk = countNewlines chunk;
                 buffer = (if OVERLAP_BUFFER_SIZE < length combined
                           then slice_from_neg combined OVERLAP_BUFFER_SIZE else combined);
                 overlapLines = countNewlines buffer;
                 relevantMatches =
                   filter (\<lambda>m. int lineOffset - int overlapLines < int (line m)) found
             in Some (\<lparr>matches = relevantMatches, hasSecrets = (0 < length relevantMatches)\<rparr>,
                      this\<lparr>overlapBuffer := buffer,
                           totalLines := totalLines this + newLinesInChunk\<rparr>)))"

definition finalize :: "StreamScanner \<Rightarrow> (ScanResult \<times> StreamScanner) option" where
  "finalize this =
     (if length (overlapBuffer this) = 0 then Some (\<lparr>matches = [], hasSecrets = False\<rparr>, this)
      else case findMatches this (overlapBuffer this) (totalLines this) of
             None \<Rightarrow> None
           | Some found \<Rightarrow>
               Some (\<lparr>matches = found, hasSecrets = (0 < length found)\<rparr>,
                     this\<lparr>overlapBuffer := []\<rparr>))"

definition scanString :: "string \<Rightarrow> ScanResult option" where
  "scanString text =
     (case scan new_StreamScanner text of
        None \<Rightarrow> None
      | Some (result, scanner) \<Rightarrow>
          (case finalize scanner of
             None \<Rightarrow> None
           | Some (finalResult, scanner') \<Rightarrow>
               Some \<lparr>matches = matches result @ matches finalResult,
                     hasSecrets = (hasSecrets result \<or> hasSecrets finalResult)\<rparr>))"

definition containsSecrets :: "string \<Rightarrow> bool option" where
  "containsSecrets text = map_option hasSecrets (scanString text)"

text \<open>
  A stream: the chunks go to \<open>scan\<close> of one scanner in order, then \<open>finalize\<close> is called.
  \<open>stream_reports\<close> is the list of the matches that the successive calls report.
\<close>

fun scan_chunks ::
  "StreamScanner \<Rightarrow> string list \<Rightarrow> (ScanMatch list \<times> StreamScanner) option"
where
  "scan_chunks scanner [] = Some ([], scanner)"
| "scan_chunks scanner (chunk # chunks) =
     (case scan scanner chunk of
        None \<Rightarrow> None
      | Some (result, scanner') \<Rightarrow>
          (case scan_chunks scanner' chunks of
             None \<Rightarrow> None
           | Some (reported, scanner'') \<Rightarrow> Some (matches result @ reported, scanner'')))"

definition stream_reports :: "string list \<Rightarrow> ScanMatch list option" where
  "stream_reports chunks =
     (case scan_chunks new_StreamScanner chunks of
        None \<Rightarrow> None
      | Some (reported, scanner) \<Rightarrow>
          (case finalize scanner of
             None \<Rightarrow> None
           | Some (finalResult, scanner') \<Rightarrow> Some (reported @ matches finalResult)))"

section \<open>watcher/task.ts: the task schema\<close>

text \<open>
  The value that \<open>JSON.parse\<close> returns. An object is the list of its properties, the first
  binding of a key being its value. The validation never reads a number.
\<close>

datatype json =
    JNull
  | JBool bool
  | JNum int
  | JStr string
  | JArr "json list"
  | JObj "(string \<times> json) list"

text \<open>\<open>obj[key]\<close> for the keys the sources read; \<open>None\<close> is \<open>undefined\<close>.\<close>

definition js_get :: "json \<Rightarrow> string \<Rightarrow> json option" where
  "js_get obj key = (case obj of JObj kvs \<Rightarrow> map_of kvs key | _ \<Rightarrow> None)"

text \<open>\<open>obj && typeof obj === 'object'\<close>: an array is an object, \<open>null\<close> is falsy.\<close>

definition is_object :: "json \<Rightarrow> bool" where
  "is_object v = (case v of JArr xs \<Rightarrow> True | JObj kvs \<Rightarrow> True | _ \<Rightarrow> False)"

text \<open>\<open>typeof v === 'string'\<close>, and \<open>typeof v === 'string' && v\<close>.\<close>

definition is_string :: "json option \<Rightarrow> bool" where
  "is_string v = (case v of Some (JStr s) \<Rightarrow> True | _ \<Rightarrow> False)"

definition is_nonempty_string :: "json option \<Rightarrow> bool" where
  "is_nonempty_string v = (case v of Some (JStr s) \<Rightarrow> s \<noteq> [] | _ \<Rightarrow> False)"

definition isArray :: "json option \<Rightarrow> bool" where
  "isArray v = (case v of Some (JArr xs) \<Rightarrow> True | _ \<Rightarrow> False)"

text \<open>The two loops of \<open>validateTask\<close>: the error of the first item that fails, if any.\<close>

fun validate_scope_items :: "json list \<Rightarrow> error option" where
  "validate_scope_items [] = None"
| "validate_scope_items (s # rest) =
     (if \<not> is_string (Some s)
      then Some (TaskValidationError ''Scope items must be strings'' (Some ''scope''))
      else validate_scope_items rest)"

fun validate_verify_items :: "json list \<Rightarrow> error option" where
  "validate_verify_items [] = None"
| "validate_verify_items (v # rest) =
     (if \<not> is_object v
      then Some (TaskValidationError ''Verify commands must be objects'' (Some ''verify''))
      else if \<not> is_string (js_get v ''cmd'')
      then Some (TaskValidationError ''Verify command must have cmd string'' (Some ''verify.cmd''))
      else if \<not> isArray (js_get v ''args'')
      then Some (TaskValidationError ''Verify command must have args array'' (Some ''verify.args''))
      else validate_verify_items rest)"

definition validateTask :: "json \<Rightarrow> error + json" where
  "validateTask obj =
     (if \<not> is_object obj then Inl (TaskValidationError ''Task must be an object'' None)
      else if \<not> is_nonempty_string (js_get obj ''id'')
      then Inl (TaskValidationError ''Task must have a non-empty string id'' (Some ''id''))
      else if \<not> is_nonempty_string (js_get obj ''created'')
      then Inl (TaskValidationError ''Task must have a created timestamp'' (Some ''created''))
      else if \<not> is_nonempty_string (js_get obj ''title'')
      then Inl (TaskValidationError ''Task must have a title'' (Some ''title''))
      else if \<not> is_nonempty_string (js_get obj ''prompt'')
      then Inl (TaskValidationError ''Task must have a prompt'' (Some ''prompt''))
      else (case js_get obj ''scope'' of
        Some (JArr scope) \<Rightarrow>
          (case js_get obj ''verify'' of
             Some (JArr verify) \<Rightarrow>
               (case validate_scope_items scope of
                  Some e \<Rightarrow> Inl e
                | None \<Rightarrow>
                    (case validate_verify_items verify of
                       Some e \<Rightarrow> Inl e
                     | None \<Rightarrow> Inr obj))
           | _ \<Rightarrow> Inl (TaskValidationError ''Task must have a verify array'' (Some ''verify'')))
      | _ \<Rightarrow> Inl (TaskValidationError ''Task must have a scope array'' (Some ''scope''))))"

text \<open>
  The invariants of a task in the words of the specification: the id matches
  \<open>[A-Za-z0-9._-]+\<close>, the scope is not empty, every verify entry has a non-empty \<open>cmd\<close>.
\<close>

definition id_char :: "char \<Rightarrow> bool" where
  "id_char c = list_ex (\<lambda>s. cset_has s c)
     (alnum @ [Single CHR ''.'', Single CHR ''_'', Single CHR ''-''])"

definition task_invariants :: "json \<Rightarrow> bool" where
  "task_invariants obj =
     ((\<exists>i. js_get obj ''id'' = Some (JStr i) \<and> i \<noteq> [] \<and> (\<forall>c \<in> set i. id_char c))
      \<and> (\<exists>scope. js_get obj ''scope'' = Some (JArr scope) \<and> scope \<noteq> [])
      \<and> (\<exists>verify. js_get obj ''verify'' = Some (JArr verify)
            \<and> (\<forall>v \<in> set verify. \<exists>cmd. js_get v ''cmd'' = Some (JStr cmd) \<and> cmd \<noteq> [])))"

text \<open>What the code checks.\<close>

definition task_shape :: "json \<Rightarrow> bool" where
  "task_shape obj =
     (is_object obj
      \<and> is_nonempty_string (js_get obj ''id'') \<and> is_nonempty_string (js_get obj ''created'')
      \<and> is_nonempty_string (js_get obj ''title'') \<and> is_nonempty_string (js_get obj ''prompt'')
      \<and> (\<exists>scope. js_get obj ''scope'' = Some (JArr scope) \<and> (\<forall>s \<in> set scope. is_string (Some s)))
      \<and> (\<exists>verify. js_get obj ''verify'' = Some (JArr verify)
            \<and> (\<forall>v \<in> set verify. is_object v \<and> is_string (js_get v ''cmd'') \<and> isArray (js_get v ''args''))))"

section \<open>SHA-256\<close>

text \<open>
  \<open>createHash('sha256').update(s).digest('hex')\<close> of the host: SHA-256 (FIPS 180-4) of
  the UTF-8 encoding of the string, in lower-case hexadecimal. A 32-bit word is an
  \<^typ>\<open>int\<close> below \<open>2 ^ 32\<close>, with the wrap-around of the additions written out.
\<close>

unbundle bit_operations_syntax

text \<open>A 32-bit constant, written as its two 16-bit halves.\<close>

definition w32 :: "int \<Rightarrow> int \<Rightarrow> int" where
  "w32 hi lo = hi * 65536 + lo"

text \<open>The round constants and the initial hash value.\<close>

definition K256 :: "int list" where
  "K256 =
    [w32 0x428a 0x2f98, w32 0x7137 0x4491, w32 0xb5c0 0xfbcf, w32 0xe9b5 0xdba5,
     w32 0x3956 0xc25b, w32 0x59f1 0x11f1, w32 0x923f 0x82a4, w32 0xab1c 0x5ed5,
     w32 0xd807 0xaa98, w32 0x1283 0x5b01, w32 0x2431 0x85be, w32 0x550c 0x7dc3,
     w32 0x72be 0x5d74, w32 0x80de 0xb1fe, w32 0x9bdc 0x06a7, w32 0xc19b 0xf174,
     w32 0xe49b 0x69c1, w32 0xefbe 0x4786, w32 0x0fc1 0x9dc6, w32 0x240c 0xa1cc,
     w32 0x2de9 0x2c6f, w32 0x4a74 0x84aa, w32 0x5cb0 0xa9dc, w32 0x76f9 0x88da,
     w32 0x983e 0x5152, w32 0xa831 0xc66d, w32 0xb003 0x27c8, w32 0xbf59 0x7fc7,
     w32 0xc6e0 0x0bf3, w32 0xd5a7 0x9147, w32 0x06ca 0x6351, w32 0x1429 0x2967,
     w32 0x27b7 0x0a85, w32 0x2e1b 0x2138, w32 0x4d2c 0x6dfc, w32 0x5338 0x0d13,
     w32 0x650a 0x7354, w32 0x766a 0x0abb, w32 0x81c2 0xc92e, w32 0x9272 0x2c85,
     w32 0xa2bf 0xe8a1, w32 0xa81a 0x664b, w32 0xc24b 0x8b70, w32 0xc76c 0x51a3,
     w32 0xd192 0xe819, w32 0xd699 0x0624, w32 0xf40e 0x3585, w32 0x106a 0xa070,
     w32 0x19a4 0xc116, w32 0x1e37 0x6c08, w32 0x2748 0x774c, w32 0x34b0 0xbcb5,
     w32 0x391c 0x0cb3, w32 0x4ed8 0xaa4a, w32 0x5b9c 0xca4f, w32 0x682e 0x6ff3,
     w32 0x748f 0x82ee, w32 0x78a5 0x636f, w32 0x84c8 0x7814, w32 0x8cc7 0x0208,
     w32 0x90be 0xfffa, w32 0xa450 0x6ceb, w32 0xbef9 0xa3f7, w32 0xc671 0x78f2]"

type_synonym state256 = "int \<times> int \<times> int \<times> int \<times> int \<times> int \<times> int \<times> int"

definition H256 :: state256 where
  "H256 =
     (w32 0x6a09 0xe667, w32 0xbb67 0xae85, w32 0x3c6e 0xf372, w32 0xa54f 0xf53a,
      w32 0x510e 0x527f, w32 0x9b05 0x688c, w32 0x1f83 0xd9ab, w32 0x5be0 0xcd19)"

definition add32 :: "int \<Rightarrow> int \<Rightarrow> int" where
  "add32 x y = (x + y) mod 2 ^ 32"

definition rotr32 :: "nat \<Rightarrow> int \<Rightarrow> int" where
  "rotr32 n x = (x div 2 ^ n) OR ((x * 2 ^ (32 - n)) mod 2 ^ 32)"

definition shr32 :: "nat \<Rightarrow> int \<Rightarrow> int" where
  "shr32 n x = x div 2 ^ n"

definition not32 :: "int \<Rightarrow> int" where
  "not32 x = 0xffffffff - x"

definition Ch :: "int \<Rightarrow> int \<Rightarrow> int \<Rightarrow> int" where
  "Ch x y z = (x AND y) XOR (not32 x AND z)"

definition Maj :: "int \<Rightarrow> int \<Rightarrow> int \<Rightarrow> int" where
  "Maj x y z = (x AND y) XOR (x AND z) XOR (y AND z)"

definition Sigma0 :: "int \<Rightarrow> int" where
  "Sigma0 x = rotr32 2 x XOR rotr32 13 x XOR rotr32 22 x"

definition Sigma1 :: "int \<Rightarrow> int" where
  "Sigma1 x = rotr32 6 x XOR rotr32 11 x XOR rotr32 25 x"

definition sigma0 :: "int \<Rightarrow> int" where
  "sigma0 x = rotr32 7 x XOR rotr32 18 x XOR shr32 3 x"

definition sigma1 :: "int \<Rightarrow> int" where
  "sigma1 x = rotr32 17 x XOR rotr32 19 x XOR shr32 10 x"

text \<open>The message schedule, the latest word first.\<close>

fun schedule :: "nat \<Rightarrow> int list \<Rightarrow> int list" where
  "schedule 0 ws = ws"
| "schedule (Suc n) ws =
     schedule n (add32 (add32 (sigma1 (ws ! 1)) (ws ! 6)) (add32 (sigma0 (ws ! 14)) (ws ! 15)) # ws)"

definition round256 :: "state256 \<Rightarrow> int \<times> int \<Rightarrow> state256" where
  "round256 st kw =
     (case st of (a, b, c, d, e, f, g, h) \<Rightarrow>
      case kw of (k, w) \<Rightarrow>
        (let t1 = add32 (add32 (add32 h (Sigma1 e)) (add32 (Ch e f g) k)) w;
             t2 = add32 (Sigma0 a) (Maj a b c)
         in (add32 t1 t2, a, b, c, add32 d t1, e, f, g)))"

definition compress :: "state256 \<Rightarrow> int list \<Rightarrow> state256" where
  "compress st block =
     (case foldl round256 st (zip K256 (rev (schedule 48 (rev block)))) of
        (a', b', c', d', e', f', g', h') \<Rightarrow>
      case st of (a, b, c, d, e, f, g, h) \<Rightarrow>
        (add32 a a', add32 b b', add32 c c', add32 d d', add32 e e', add32 f f', add32 g g',
         add32 h h'))"

fun be32 :: "int list \<Rightarrow> int list" where
  "be32 (a # b # c # d # rest) = (((a * 256 + b) * 256 + c) * 256 + d) # be32 rest"
| "be32 bs = []"

fun blocks :: "int list \<Rightarrow> int list list" where
  "blocks [] = []"
| "blocks (w # ws) = take 16 (w # ws) # blocks (drop 16 (w # ws))"

definition pad :: "int list \<Rightarrow> int list" where
  "pad bs =
     (let l = int (length bs);
          z = (119 - l mod 64) mod 64;
          bitlen = 8 * l
      in bs @ [128] @ replicate (nat z) 0 @
         map (\<lambda>i. (bitlen div 256 ^ i) mod 256) [7, 6, 5, 4, 3, 2, 1, 0])"

definition sha256 :: "int list \<Rightarrow> state256" where
  "sha256 bs = foldl compress H256 (blocks (be32 (pad bs)))"

definition hex_digit :: "int \<Rightarrow> char" where
  "hex_digit n = ''0123456789abcdef'' ! nat n"

definition hex_byte :: "int \<Rightarrow> string" where
  "hex_byte b = [hex_digit (b div 16), hex_digit (b mod 16)]"

definition hex32 :: "int \<Rightarrow> string" where
  "hex32 w = concat (map (\<lambda>i. hex_byte ((w div 256 ^ i) mod 256)) [3, 2, 1, 0])"

definition utf8 :: "string \<Rightarrow> int list" where
  "utf8 s = concat (map (\<lambda>c. let n = of_char c :: int in
       if n < 128 then [n] else [192 + n div 64, 128 + n mod 64]) s)"

definition sha256_hex :: "string \<Rightarrow> string" where
  "sha256_hex s =
     (case sha256 (utf8 s) of (a, b, c, d, e, f, g, h) \<Rightarrow>
        concat (map hex32 [a, b, c, d, e, f, g, h]))"

section \<open>watcher/result.ts: results\<close>

datatype ResultStatus = Success | Failed | Error | SecretDetected

record VerifyResult =
  cmd :: string
  args :: "string list"
  exitCode :: int
  expectedExit :: int
  passed :: bool
  durationMs :: int
  outputTruncated :: bool

record SecretIncident =
  patterns :: "string list"
  matchCount :: nat
  incidentHash :: string

text \<open>
  A \<open>Date\<close> is its time value in milliseconds; the result keeps the two time values
  where the source keeps their ISO strings.
\<close>

record Result =
  taskId :: string
  status :: ResultStatus
  startedAt :: int
  completedAt :: int
  durationMs :: int
  verifyResults :: "VerifyResult list"
  reason :: "string option"
  branch :: "string option"
  commitSha :: "string option"
  insecureRunnerUsed :: bool
  secretIncident :: "SecretIncident option"

text \<open>\<open>createSecretDetectedResult\<close>; \<open>now\<close> is the value of \<open>new Date()\<close> in it.\<close>

definition createSecretDetectedResult :: "int \<Rightarrow> string \<Rightarrow> int \<Rightarrow> SecretIncident \<Rightarrow> Result" where
  "createSecretDetectedResult now task_id started incident =
     \<lparr>taskId = task_id, status = SecretDetected, startedAt = started, completedAt = now,
      durationMs = now - started, verifyResults = [],
      reason = Some ''Secrets detected in output'', branch = None, commitSha = None,
      insecureRunnerUsed = False, secretIncident = Some incident\<rparr>"

section \<open>watcher/loop.ts: the scan of a command's output\<close>

text \<open>\<open>names.join(',')\<close> and \<open>[...new Set(names)]\<close>, which keeps the first occurrence of each name.\<close>

fun join_comma :: "string list \<Rightarrow> string" where
  "join_comma [] = []"
| "join_comma [x] = x"
| "join_comma (x # y # rest) = x @ '','' @ join_comma (y # rest)"

fun uniq :: "string list \<Rightarrow> string list" where
  "uniq [] = []"
| "uniq (x # xs) = x # uniq (filter (\<lambda>y. y \<noteq> x) xs)"

definition make_incident :: "string \<Rightarrow> ScanMatch list \<Rightarrow> SecretIncident" where
  "make_incident task_id allMatches =
     \<lparr>patterns = uniq (map pattern allMatches),
      matchCount = length allMatches,
      incidentHash = take 16 (sha256_hex (task_id @ join_comma (map pattern allMatches)))\<rparr>"

text \<open>
  The part of \<open>processTask\<close> that follows the run of one verify command: the standard
  output and the standard error go through one scanner, which is then finalized. The
  result is \<open>Some (Some r)\<close> when a secret is found and \<open>r\<close> is the result built
  for the task, \<open>Some None\<close> when the loop goes on. (Before it builds the result the
  source removes the worktree and the file in \<open>running/\<close>; an error thrown there turns
  the outcome into an error result. These two calls are outside this function.)
\<close>

definition scan_command_output ::
  "int \<Rightarrow> string \<Rightarrow> int \<Rightarrow> string \<Rightarrow> string \<Rightarrow> Result option option"
where
  "scan_command_output now task_id started stdout stderr =
     (case scan new_StreamScanner stdout of
        None \<Rightarrow> None
      | Some (stdoutScan, scanner1) \<Rightarrow>
     (case scan scanner1 stderr of
        None \<Rightarrow> None
      | Some (stderrScan, scanner2) \<Rightarrow>
     (case finalize scanner2 of
        None \<Rightarrow> None
      | Some (finalScan, scanner3) \<Rightarrow>
          if hasSecrets stdoutScan \<or> hasSecrets stderrScan \<or> hasSecrets finalScan
          then (let allMatches = matches stdoutScan @ matches stderrScan @ matches finalScan;
                    incident = make_incident task_id allMatches
                in Some (Some (createSecretDetectedResult now task_id started incident)))
          else Some None)))"

text \<open>
  The incident hash in the words of the specification: the first 16 hexadecimal
  characters of SHA-256 of the id, a comma, and the sorted distinct pattern names
  (joined by commas; strings are compared code unit by code unit).
\<close>

fun str_le :: "string \<Rightarrow> string \<Rightarrow> bool" where
  "str_le [] t = True"
| "str_le (c # s) [] = False"
| "str_le (c # s) (d # t) =
     ((of_char c :: nat) < of_char d \<or> (c = d \<and> str_le s t))"

fun insert_name :: "string \<Rightarrow> string list \<Rightarrow> string list" where
  "insert_name x [] = [x]"
| "insert_name x (y # ys) = (if str_le x y then x # y # ys else y # insert_name x ys)"

definition sort_names :: "string list \<Rightarrow> string list" where
  "sort_names xs = foldr insert_name xs []"

definition spec_incident_hash :: "string \<Rightarrow> string list \<Rightarrow> string" where
  "spec_incident_hash task_id names =
     take 16 (sha256_hex (task_id @ '','' @ join_comma (sort_names (uniq names))))"

section \<open>node:path on POSIX\<close>

text \<open>
  The functions of \<open>node:path\<close> that the sources call, for the separator \<open>/\<close>.
  \<open>normalize_segs\<close> is \<open>normalizeString\<close>: it drops empty and \<open>.\<close> segments and resolves
  \<open>..\<close> against the segment before it; \<open>acc\<close> holds the segments kept so far, the last
  one first. Above the root \<open>..\<close> is dropped; in a relative path it is kept.
\<close>

fun normalize_segs :: "bool \<Rightarrow> string list \<Rightarrow> string list \<Rightarrow> string list" where
  "normalize_segs allowAbove [] acc = rev acc"
| "normalize_segs allowAbove (seg # segs) acc =
     (if seg = [] \<or> seg = ''.'' then normalize_segs allowAbove segs acc
      else if seg = ''..'' then
        (case acc of
           [] \<Rightarrow> normalize_segs allowAbove segs (if allowAbove then [''..''] else [])
         | prev # acc' \<Rightarrow>
             if prev \<noteq> ''..'' then normalize_segs allowAbove segs acc'
             else normalize_segs allowAbove segs (if allowAbove then ''..'' # acc else acc))
      else normalize_segs allowAbove segs (seg # acc))"

definition isAbsolute :: "string \<Rightarrow> bool" where
  "isAbsolute p = (p \<noteq> [] \<and> hd p = CHR ''/'')"

text \<open>\<open>path.resolve(p)\<close> in a process whose working directory is \<open>cwd\<close> (an absolute path).\<close>

definition resolve :: "string \<Rightarrow> string \<Rightarrow> string" where
  "resolve cwd p =
     (let full = (if p = [] then cwd else if isAbsolute p then p else cwd @ ''/'' @ p)
      in ''/'' @ join_sep (normalize_segs False (split_on CHR ''/'' full) []))"

definition normalize :: "string \<Rightarrow> string" where
  "normalize p =
     (if p = [] then ''.''
      else (let trailingSeparator = (last p = CHR ''/'');
                body = join_sep (normalize_segs (\<not> isAbsolute p) (split_on CHR ''/'' p) [])
            in if body = [] then (if isAbsolute p then ''/'' else if trailingSeparator then ''./'' else ''.'')
               else (if isAbsolute p then ''/'' else []) @ body @ (if trailingSeparator then ''/'' else [])))"

text \<open>\<open>path.join(...parts)\<close>: the non-empty parts, joined by \<open>/\<close> and normalized.\<close>

definition path_join :: "string list \<Rightarrow> string" where
  "path_join parts =
     (let joined = join_sep (filter (\<lambda>s. s \<noteq> []) parts)
      in if joined = [] then ''.'' else normalize joined)"

text \<open>\<open>path.dirname(p)\<close>.\<close>

definition dirname :: "string \<Rightarrow> string" where
  "dirname p =
     (if p = [] then ''.''
      else (let r = dropWhile (\<lambda>c. c \<noteq> CHR ''/'') (dropWhile (\<lambda>c. c = CHR ''/'') (rev (tl p)))
            in if r = [] then (if isAbsolute p then ''/'' else ''.'')
               else if isAbsolute p \<and> length r = 1 then ''//''
               else hd p # rev (tl r)))"

text \<open>\<open>path.relative(from, to)\<close>: both are resolved, and their common leading segments removed.\<close>

fun drop_common :: "string list \<Rightarrow> string list \<Rightarrow> string list \<times> string list" where
  "drop_common (x # xs) (y # ys) = (if x = y then drop_common xs ys else (x # xs, y # ys))"
| "drop_common xs ys = (xs, ys)"

definition segments :: "string \<Rightarrow> string list" where
  "segments p = filter (\<lambda>s. s \<noteq> []) (split_on CHR ''/'' p)"

definition relative :: "string \<Rightarrow> string \<Rightarrow> string \<Rightarrow> string" where
  "relative cwd from to =
     (case drop_common (segments (resolve cwd from)) (segments (resolve cwd to)) of
        (up, down) \<Rightarrow> join_sep (map (\<lambda>s. ''..'') up @ down))"

text \<open>Segments as \<open>path.resolve\<close> produces them: not empty, without a separator.\<close>

definition segs_ok :: "string list \<Rightarrow> bool" where
  "segs_ok xs = (\<forall>x \<in> set xs. x \<noteq> [] \<and> CHR ''/'' \<notin> set x)"

section \<open>The file system of the host\<close>

text \<open>
  The state that \<open>node:fs\<close> acts on: the entries of the file system, each under its
  absolute normalized path, in the order in which a directory lists them. The root \<open>/\<close>
  is a directory. A symbolic link is an entry of its own, which \<open>lstat\<close> sees; the model
  does not follow links: a call that has to go through one fails with \<open>ELOOP\<close>, as an
  open with \<open>O_NOFOLLOW\<close> does. An operation fails only for the state of the file
  system: input/output faults are not modelled.
\<close>

datatype node = File string | Dir | Symlink string

type_synonym fs = "(string \<times> node) list"

definition fs_lookup :: "fs \<Rightarrow> string \<Rightarrow> node option" where
  "fs_lookup fs p = (if p = ''/'' then Some Dir else map_of fs p)"

definition fs_remove :: "fs \<Rightarrow> string \<Rightarrow> fs" where
  "fs_remove fs p = filter (\<lambda>(k, n). k \<noteq> p) fs"

text \<open>An entry is replaced where it stands; a new entry goes to the end.\<close>

fun fs_put :: "fs \<Rightarrow> string \<Rightarrow> node \<Rightarrow> fs" where
  "fs_put [] p n = [(p, n)]"
| "fs_put ((k, m) # rest) p n = (if k = p then (k, n) # rest else (k, m) # fs_put rest p n)"

definition canon :: "string \<Rightarrow> string" where
  "canon p = ''/'' @ join_sep (segments p)"

text \<open>
  The directories on the way to a path: \<open>walk_dirs fs cur segs\<close> goes from the directory
  \<open>cur\<close> down the segments and returns the error of the first one that is not a directory.
\<close>

fun walk_dirs :: "fs \<Rightarrow> string \<Rightarrow> string list \<Rightarrow> errno option" where
  "walk_dirs fs cur [] = None"
| "walk_dirs fs cur (s # ss) =
     (case map_of fs (cur @ ''/'' @ s) of
        None \<Rightarrow> Some ENOENT
      | Some Dir \<Rightarrow> walk_dirs fs (cur @ ''/'' @ s) ss
      | Some (File c) \<Rightarrow> Some ENOTDIR
      | Some (Symlink t) \<Rightarrow> Some ELOOP)"

definition parent_error :: "fs \<Rightarrow> string \<Rightarrow> errno option" where
  "parent_error fs p = walk_dirs fs [] (butlast (segments p))"

text \<open>\<open>fs.promises.lstat\<close>: the entry itself.\<close>

definition lstat :: "fs \<Rightarrow> string \<Rightarrow> errno + node" where
  "lstat fs p =
     (case parent_error fs p of
        Some e \<Rightarrow> Inl e
      | None \<Rightarrow> (case fs_lookup fs (canon p) of None \<Rightarrow> Inl ENOENT | Some n \<Rightarrow> Inr n))"

text \<open>\<open>fs.promises.access\<close>: whether the path leads to something; a link counts when its target exists.\<close>

definition access :: "fs \<Rightarrow> string \<Rightarrow> errno + unit" where
  "access fs p =
     (case lstat fs p of
        Inl e \<Rightarrow> Inl e
      | Inr (Symlink t) \<Rightarrow> (case lstat fs t of Inl e \<Rightarrow> Inl e | Inr n \<Rightarrow> Inr ())
      | Inr n \<Rightarrow> Inr ())"

text \<open>\<open>open(p, O_RDONLY | O_NOFOLLOW)\<close> and \<open>readFile\<close> on the descriptor.\<close>

definition open_read_nofollow :: "fs \<Rightarrow> string \<Rightarrow> errno + string" where
  "open_read_nofollow fs p =
     (case lstat fs p of
        Inl e \<Rightarrow> Inl e
      | Inr (File c) \<Rightarrow> Inr c
      | Inr Dir \<Rightarrow> Inl EISDIR
      | Inr (Symlink t) \<Rightarrow> Inl ELOOP)"

text \<open>
  \<open>fs.promises.mkdir(p, {recursive: true})\<close>: the missing directories down to \<open>p\<close> are
  created; what exists on the way has to be a directory.
\<close>

fun mkdir_walk :: "fs \<Rightarrow> string \<Rightarrow> string list \<Rightarrow> errno + fs" where
  "mkdir_walk fs cur [] = Inr fs"
| "mkdir_walk fs cur (s # ss) =
     (case map_of fs (cur @ ''/'' @ s) of
        None \<Rightarrow> mkdir_walk (fs @ [(cur @ ''/'' @ s, Dir)]) (cur @ ''/'' @ s) ss
      | Some Dir \<Rightarrow> mkdir_walk fs (cur @ ''/'' @ s) ss
      | Some (File c) \<Rightarrow> Inl (if ss = [] then EEXIST else ENOTDIR)
      | Some (Symlink t) \<Rightarrow> Inl ELOOP)"

definition mkdir_recursive :: "fs \<Rightarrow> string \<Rightarrow> errno + fs" where
  "mkdir_recursive fs p = mkdir_walk fs [] (segments p)"

text \<open>\<open>fs.promises.writeFile(p, content)\<close>: creates or truncates the file.\<close>

definition writeFile :: "fs \<Rightarrow> string \<Rightarrow> string \<Rightarrow> errno + fs" where
  "writeFile fs p content =
     (case parent_error fs p of
        Some e \<Rightarrow> Inl e
      | None \<Rightarrow>
          (case fs_lookup fs (canon p) of
             None \<Rightarrow> Inr (fs_put fs (canon p) (File content))
           | Some (File c) \<Rightarrow> Inr (fs_put fs (canon p) (File content))
           | Some Dir \<Rightarrow> Inl EISDIR
           | Some (Symlink t) \<Rightarrow> Inl ELOOP))"

text \<open>\<open>fs.promises.unlink(p)\<close>: removes a file or a link.\<close>

definition unlink :: "fs \<Rightarrow> string \<Rightarrow> errno + fs" where
  "unlink fs p =
     (case lstat fs p of
        Inl e \<Rightarrow> Inl e
      | Inr Dir \<Rightarrow> Inl EISDIR
      | Inr n \<Rightarrow> Inr (fs_remove fs (canon p)))"

text \<open>
  \<open>fs.promises.rename(src, dst)\<close> for a source that is a file or a link: in one step the
  entry of \<open>dst\<close> becomes that of \<open>src\<close>, and \<open>src\<close> is gone. It fails when \<open>dst\<close> is a
  directory. (No source of this repository renames a directory; the model refuses it.)
\<close>

definition rename :: "fs \<Rightarrow> string \<Rightarrow> string \<Rightarrow> errno + fs" where
  "rename fs src dst =
     (case lstat fs src of
        Inl e \<Rightarrow> Inl e
      | Inr Dir \<Rightarrow> Inl EISDIR
      | Inr n \<Rightarrow>
          (case parent_error fs dst of
             Some e \<Rightarrow> Inl e
           | None \<Rightarrow>
               (case fs_lookup fs (canon dst) of
                  Some Dir \<Rightarrow> Inl EISDIR
                | _ \<Rightarrow>
                    if canon src = canon dst then Inr fs
                    else Inr (fs_put (fs_remove fs (canon src)) (canon dst) n))))"

text \<open>\<open>fs.promises.readdir(p)\<close>: the names in the directory, in the order of the entries.\<close>

definition readdir :: "fs \<Rightarrow> string \<Rightarrow> errno + string list" where
  "readdir fs p =
     (case lstat fs p of
        Inl e \<Rightarrow> Inl e
      | Inr Dir \<Rightarrow>
          Inr (map (\<lambda>(k, n). last (segments k))
                 (filter (\<lambda>(k, n). segments k \<noteq> [] \<and> butlast (segments k) = segments p) fs))
      | Inr (File c) \<Rightarrow> Inl ENOTDIR
      | Inr (Symlink t) \<Rightarrow> Inl ELOOP)"

section \<open>safe/fsSafe.ts: confined file operations\<close>

text \<open>
  Every function takes the working directory of the process, which \<open>path.resolve\<close>
  reads, and the file system, and returns its result with the file system as it leaves
  it.
\<close>

definition isContained :: "string \<Rightarrow> string \<Rightarrow> string \<Rightarrow> bool" where
  "isContained cwd filePath root =
     (let resolvedPath = resolve cwd filePath;
          resolvedRoot = resolve cwd root
      in startsWith resolvedPath (resolvedRoot @ ''/'') \<or> resolvedPath = resolvedRoot)"

definition escapes :: "string \<Rightarrow> string \<Rightarrow> error" where
  "escapes filePath root = PathEscapeError (''Path '' @ filePath @ '' escapes root '' @ root)"

text \<open>
  The loop of \<open>validateParentChain\<close>. The \<open>catch\<close> lets \<open>ENOENT\<close> end the loop and
  throws every other error again, the \<open>SymlinkError\<close> of the \<open>try\<close> block among them.
\<close>

fun check_components :: "fs \<Rightarrow> string \<Rightarrow> string list \<Rightarrow> error option" where
  "check_components fs current [] = None"
| "check_components fs current (component # rest) =
     (case lstat fs (path_join [current, component]) of
        Inr (Symlink t) \<Rightarrow>
          Some (SymlinkError (''Symlink detected in parent chain: '' @ path_join [current, component]))
      | Inr n \<Rightarrow> check_components fs (path_join [current, component]) rest
      | Inl ENOENT \<Rightarrow> None
      | Inl e \<Rightarrow> Some (SysError e))"

definition validateParentChain :: "string \<Rightarrow> string \<Rightarrow> string \<Rightarrow> fs \<Rightarrow> error option" where
  "validateParentChain cwd filePath root fs =
     (let resolvedPath = resolve cwd filePath;
          resolvedRoot = resolve cwd root
      in if \<not> isContained cwd resolvedPath resolvedRoot then Some (escapes filePath root)
         else (let relativePath = relative cwd resolvedRoot resolvedPath;
                   components = filter (\<lambda>s. s \<noteq> []) (split_on CHR ''/'' relativePath)
               in check_components fs resolvedRoot components))"

definition fsSafe_read :: "string \<Rightarrow> string \<Rightarrow> string \<Rightarrow> fs \<Rightarrow> error + string" where
  "fsSafe_read cwd filePath root fs =
     (let resolvedPath = resolve cwd filePath
      in if \<not> isContained cwd resolvedPath root then Inl (escapes filePath root)
         else (case lstat fs resolvedPath of
                 Inl e \<Rightarrow> Inl (SysError e)
               | Inr (Symlink t) \<Rightarrow> Inl (SymlinkError (''Cannot read symlink: '' @ filePath))
               | Inr n \<Rightarrow>
                   (case open_read_nofollow fs resolvedPath of
                      Inl e \<Rightarrow> Inl (SysError e)
                    | Inr text \<Rightarrow> Inr text)))"

text \<open>
  The name of the temporary file: \<open>rnd\<close> is the value of \<open>randomBytes(8)\<close>, written in
  hexadecimal.
\<close>

definition to_hex :: "8 word list \<Rightarrow> string" where
  "to_hex rnd = concat (map (\<lambda>b. hex_byte (uint b)) rnd)"

definition tmp_name :: "string \<Rightarrow> 8 word list \<Rightarrow> string" where
  "tmp_name resolvedPath rnd = resolvedPath @ ''.'' @ to_hex rnd @ ''.tmp''"

text \<open>
  \<open>writeAtomic\<close>. The \<open>try\<close> block writes the temporary file and renames it; the \<open>catch\<close>
  unlinks the temporary file, ignores an error of that, and throws the first error again.
\<close>

definition fsSafe_writeAtomic ::
  "string \<Rightarrow> 8 word list \<Rightarrow> string \<Rightarrow> string \<Rightarrow> string \<Rightarrow> fs \<Rightarrow> (error + unit) \<times> fs"
where
  "fsSafe_writeAtomic cwd rnd filePath content root fs =
     (let resolvedPath = resolve cwd filePath
      in if \<not> isContained cwd resolvedPath root then (Inl (escapes filePath root), fs)
         else (case validateParentChain cwd filePath root fs of
                 Some e \<Rightarrow> (Inl e, fs)
               | None \<Rightarrow>
                   (case mkdir_recursive fs (dirname resolvedPath) of
                      Inl e \<Rightarrow> (Inl (SysError e), fs)
                    | Inr fs1 \<Rightarrow>
                        (let tmpName = tmp_name resolvedPath rnd
                         in case (case writeFile fs1 tmpName content of
                                    Inl e \<Rightarrow> Inl (e, fs1)
                                  | Inr fs2 \<Rightarrow>
                                      (case rename fs2 tmpName resolvedPath of
                                         Inl e \<Rightarrow> Inl (e, fs2)
                                       | Inr fs3 \<Rightarrow> Inr fs3)) of
                              Inr fs3 \<Rightarrow> (Inr (), fs3)
                            | Inl (e, fs') \<Rightarrow>
                                (case unlink fs' tmpName of
                                   Inl e' \<Rightarrow> (Inl (SysError e), fs')
                                 | Inr fs'' \<Rightarrow> (Inl (SysError e), fs''))))))"

definition fsSafe_unlink :: "string \<Rightarrow> string \<Rightarrow> string \<Rightarrow> fs \<Rightarrow> error + fs" where
  "fsSafe_unlink cwd filePath root fs =
     (let resolvedPath = resolve cwd filePath
      in if \<not> isContained cwd resolvedPath root then Inl (escapes filePath root)
         else (case validateParentChain cwd filePath root fs of
                 Some e \<Rightarrow> Inl e
               | None \<Rightarrow>
                   (case unlink fs resolvedPath of Inl e \<Rightarrow> Inl (SysError e) | Inr fs' \<Rightarrow> Inr fs')))"

definition fsSafe_mkdir :: "string \<Rightarrow> string \<Rightarrow> string \<Rightarrow> fs \<Rightarrow> error + fs" where
  "fsSafe_mkdir cwd dirPath root fs =
     (let resolvedPath = resolve cwd dirPath
      in if \<not> isContained cwd resolvedPath root then Inl (escapes dirPath root)
         else (case validateParentChain cwd dirPath root fs of
                 Some e \<Rightarrow> Inl e
               | None \<Rightarrow>
                   (case mkdir_recursive fs resolvedPath of
                      Inl e \<Rightarrow> Inl (SysError e)
                    | Inr fs' \<Rightarrow> Inr fs')))"

definition fsSafe_exists :: "string \<Rightarrow> string \<Rightarrow> string \<Rightarrow> fs \<Rightarrow> error + bool" where
  "fsSafe_exists cwd filePath root fs =
     (let resolvedPath = resolve cwd filePath
      in if \<not> isContained cwd resolvedPath root then Inl (escapes filePath root)
         else (case access fs resolvedPath of Inl e \<Rightarrow> Inr False | Inr u \<Rightarrow> Inr True))"

definition fsSafe_readdir :: "string \<Rightarrow> string \<Rightarrow> string \<Rightarrow> fs \<Rightarrow> error + string list" where
  "fsSafe_readdir cwd dirPath root fs =
     (let resolvedPath = resolve cwd dirPath
      in if \<not> isContained cwd resolvedPath root then Inl (escapes dirPath root)
         else (case readdir fs resolvedPath of Inl e \<Rightarrow> Inl (SysError e) | Inr names \<Rightarrow> Inr names))"

section \<open>watcher/logcap.ts: capping the output of a command\<close>

definition MAX_OUTPUT_BYTES :: nat where
  "MAX_OUTPUT_BYTES = 10 * 1024"

record CappedOutput =
  content :: string
  truncated :: bool
  fullLogPath :: "string option"
  secretsDetected :: bool
  secretCount :: nat

datatype stream = Stdout | Stderr

definition stream_name :: "stream \<Rightarrow> string" where
  "stream_name s = (case s of Stdout \<Rightarrow> ''stdout'' | Stderr \<Rightarrow> ''stderr'')"

text \<open>\<open>Buffer.byteLength(s, 'utf8')\<close>: a code unit below 128 is one byte, one below 256 is two.\<close>

definition byteLength :: "string \<Rightarrow> nat" where
  "byteLength s = sum_list (map (\<lambda>c. if (of_char c :: nat) < 128 then 1 else 2) s)"

text \<open>The decimal digits of an index, as a template literal writes it.\<close>

function show_nat :: "nat \<Rightarrow> string" where
  "show_nat n =
     (if n < 10 then [''0123456789'' ! n]
      else show_nat (n div 10) @ [''0123456789'' ! (n mod 10)])"
  by pat_completeness auto
termination
  by (relation "measure id") auto

text \<open>
  \<open>capOutput\<close>. The calls are those of the source, argument for argument:
  \<open>fsSafe.mkdir(root, logDir)\<close> and \<open>fsSafe.writeAtomic(root, fullLogPath, output)\<close>,
  against the signatures \<open>mkdir(dirPath, root)\<close> and
  \<open>writeAtomic(filePath, content, root)\<close>.
\<close>

definition capOutput ::
  "string \<Rightarrow> 8 word list \<Rightarrow> string \<Rightarrow> string \<Rightarrow> string \<Rightarrow> nat \<Rightarrow> stream \<Rightarrow> string \<Rightarrow> fs
     \<Rightarrow> ((error + CappedOutput) \<times> fs) option"
where
  "capOutput cwd rnd output logDir task_id cmdIndex strm root fs =
     (case scanString output of
        None \<Rightarrow> None
      | Some scanResult \<Rightarrow>
          (let secrets = hasSecrets scanResult;
               count = length (matches scanResult);
               outputBytes = byteLength output;
               needsTruncation = (MAX_OUTPUT_BYTES < outputBytes)
           in if needsTruncation
              then (let logFileName = task_id @ ''_'' @ show_nat cmdIndex @ ''_'' @ stream_name strm @ ''.log'';
                        logPath = path_join [logDir, logFileName]
                    in case fsSafe_mkdir cwd root logDir fs of
                         Inl e \<Rightarrow> Some (Inl e, fs)
                       | Inr fs1 \<Rightarrow>
                           (case fsSafe_writeAtomic cwd rnd root logPath output fs1 of
                              (Inl e, fs2) \<Rightarrow> Some (Inl e, fs2)
                            | (Inr u, fs2) \<Rightarrow>
                                Some (Inr \<lparr>content = take MAX_OUTPUT_BYTES output
                                              @ [CHR 0x0A, CHR 0x0A] @ ''[TRUNCATED - Full log: ''
                                              @ logFileName @ '']'',
                                            truncated = needsTruncation,
                                            fullLogPath = Some logPath,
                                            secretsDetected = secrets,
                                            secretCount = count\<rparr>, fs2)))
              else Some (Inr \<lparr>content = output, truncated = needsTruncation, fullLogPath = None,
                              secretsDetected = secrets, secretCount = count\<rparr>, fs)))"

section \<open>watcher/task.ts and watcher/loop.ts: the loop\<close>

text \<open>
  What the code takes from its process and from the JavaScript library: the working
  directory, the process id and the host name, \<open>JSON.parse\<close> (which throws a
  \<open>SyntaxError\<close>), \<open>JSON.stringify\<close>, the time value of \<open>new Date(v)\<close> in milliseconds
  (\<open>None\<close> is \<open>NaN\<close>, the time value of an invalid date), and \<open>toISOString\<close>.
\<close>

record process =
  proc_cwd :: string
  proc_pid :: int
  os_hostname :: string
  JSON_parse :: "string \<Rightarrow> error + json"
  JSON_stringify :: "json \<Rightarrow> string"
  Result_stringify :: "Result \<Rightarrow> string"
  Date_getTime :: "json option \<Rightarrow> int option"
  Date_toISOString :: "int \<Rightarrow> string"

definition HANDOFF_DIR :: string where
  "HANDOFF_DIR = ''.ai-handoff''"

definition WORKER_LOCK :: string where
  "WORKER_LOCK = ''__worker__.lock''"

definition LOCK_STALE_MS :: int where
  "LOCK_STALE_MS = 5 * 60 * 1000"

definition handoffPath :: "string \<Rightarrow> string" where
  "handoffPath repoPath = path_join [repoPath, HANDOFF_DIR]"

definition worker_lock_path :: "string \<Rightarrow> string" where
  "worker_lock_path repoPath = path_join [handoffPath repoPath, ''locks'', WORKER_LOCK]"

definition lock_text :: "process \<Rightarrow> int \<Rightarrow> string" where
  "lock_text h now =
     JSON_stringify h (JObj [(''pid'', JNum (proc_pid h)),
                             (''acquired'', JStr (Date_toISOString h now)),
                             (''hostname'', JStr (os_hostname h))])"

text \<open>
  \<open>WatcherLoop.acquireWorkerLock\<close>, the method that \<open>run\<close> calls; \<open>now\<close> is the clock of
  the call. Whatever is thrown inside the \<open>try\<close> block makes the result \<open>false\<close>: a
  path that escapes, a read that fails, a text that is not JSON, the \<open>TypeError\<close> of
  \<open>lockData.acquired\<close> on \<open>null\<close>. When the date is invalid the comparison with \<open>NaN\<close> is
  false and the lock counts as held.
\<close>

definition write_worker_lock :: "process \<Rightarrow> int \<Rightarrow> 8 word list \<Rightarrow> string \<Rightarrow> fs \<Rightarrow> bool \<times> fs" where
  "write_worker_lock h now rnd repoPath fs =
     (case fsSafe_writeAtomic (proc_cwd h) rnd (worker_lock_path repoPath) (lock_text h now) repoPath fs of
        (Inl e, fs') \<Rightarrow> (False, fs')
      | (Inr u, fs') \<Rightarrow> (True, fs'))"

definition WatcherLoop_acquireWorkerLock ::
  "process \<Rightarrow> int \<Rightarrow> 8 word list \<Rightarrow> string \<Rightarrow> fs \<Rightarrow> bool \<times> fs"
where
  "WatcherLoop_acquireWorkerLock h now rnd repoPath fs =
     (let lockPath = worker_lock_path repoPath
      in case fsSafe_exists (proc_cwd h) lockPath repoPath fs of
           Inl e \<Rightarrow> (False, fs)
         | Inr False \<Rightarrow> write_worker_lock h now rnd repoPath fs
         | Inr True \<Rightarrow>
             (case fsSafe_read (proc_cwd h) lockPath repoPath fs of
                Inl e \<Rightarrow> (False, fs)
              | Inr text \<Rightarrow>
                  (case JSON_parse h text of
                     Inl e \<Rightarrow> (False, fs)
                   | Inr lockData \<Rightarrow>
                       if lockData = JNull then (False, fs)
                       else (case Date_getTime h (js_get lockData ''acquired'') of
                               None \<Rightarrow> (False, fs)
                             | Some lockTime \<Rightarrow>
                                 if LOCK_STALE_MS < now - lockTime
                                 then (case fsSafe_unlink (proc_cwd h) lockPath repoPath fs of
                                         Inl e \<Rightarrow> (False, fs)
                                       | Inr fs1 \<Rightarrow> write_worker_lock h now rnd repoPath fs1)
                                 else (False, fs)))))"

text \<open>
  The condition of the specification for a held lock: the recorded host is this host
  and the recorded process is alive. \<open>alive\<close> tells which process ids are running.
\<close>

definition lock_holder_alive :: "process \<Rightarrow> (int \<Rightarrow> bool) \<Rightarrow> json \<Rightarrow> bool" where
  "lock_holder_alive h alive lockData =
     (js_get lockData ''hostname'' = Some (JStr (os_hostname h))
      \<and> (case js_get lockData ''pid'' of Some (JNum p) \<Rightarrow> alive p | _ \<Rightarrow> False))"

text \<open>\<open>loadTask\<close> and \<open>loadTasks\<close>. A file that fails to load is logged and skipped.\<close>

definition loadTask :: "process \<Rightarrow> string \<Rightarrow> string \<Rightarrow> fs \<Rightarrow> error + json" where
  "loadTask h filePath root fs =
     (case fsSafe_read (proc_cwd h) filePath root fs of
        Inl e \<Rightarrow> Inl e
      | Inr text \<Rightarrow> (case JSON_parse h text of Inl e \<Rightarrow> Inl e | Inr obj \<Rightarrow> validateTask obj))"

fun loadTasks_loop ::
  "process \<Rightarrow> string \<Rightarrow> string \<Rightarrow> fs \<Rightarrow> string list \<Rightarrow> json list \<Rightarrow> json list"
where
  "loadTasks_loop h tasksDir root fs [] tasks = tasks"
| "loadTasks_loop h tasksDir root fs (file # files) tasks =
     (case loadTask h (path_join [tasksDir, file]) root fs of
        Inl e \<Rightarrow> loadTasks_loop h tasksDir root fs files tasks
      | Inr task \<Rightarrow> loadTasks_loop h tasksDir root fs files (tasks @ [task]))"

text \<open>
  The comparator \<open>new Date(a.created).getTime() - new Date(b.created).getTime()\<close>, and
  \<open>Array.prototype.sort\<close>: a stable sort, here by insertion. A comparator result
  \<open>NaN\<close> counts as \<open>0\<close>; the order that a comparator with such results gives is left
  to the implementation by ECMAScript, and the model's order is then one of them.
\<close>

definition created_time :: "process \<Rightarrow> json \<Rightarrow> int option" where
  "created_time h task = Date_getTime h (js_get task ''created'')"

definition compare_created :: "process \<Rightarrow> json \<Rightarrow> json \<Rightarrow> int option" where
  "compare_created h a b =
     (case created_time h a of
        None \<Rightarrow> None
      | Some x \<Rightarrow> (case created_time h b of None \<Rightarrow> None | Some y \<Rightarrow> Some (x - y)))"

fun insert_by :: "('a \<Rightarrow> 'a \<Rightarrow> int option) \<Rightarrow> 'a \<Rightarrow> 'a list \<Rightarrow> 'a list" where
  "insert_by cmp x [] = [x]"
| "insert_by cmp x (y # ys) =
     (if (case cmp x y of None \<Rightarrow> True | Some d \<Rightarrow> d \<le> 0) then x # y # ys
      else y # insert_by cmp x ys)"

definition array_sort :: "('a \<Rightarrow> 'a \<Rightarrow> int option) \<Rightarrow> 'a list \<Rightarrow> 'a list" where
  "array_sort cmp xs = foldr (insert_by cmp) xs []"

definition loadTasks :: "process \<Rightarrow> string \<Rightarrow> string \<Rightarrow> fs \<Rightarrow> error + json list" where
  "loadTasks h tasksDir root fs =
     (case fsSafe_readdir (proc_cwd h) tasksDir root fs of
        Inl e \<Rightarrow> Inl e
      | Inr files \<Rightarrow>
          (let jsonFiles = filter (\<lambda>f. endsWith f ''.json'') files;
               tasks = loadTasks_loop h tasksDir root fs jsonFiles []
           in Inr (array_sort (compare_created h) tasks)))"




text \<open>
  The order of the specification: priority descending, then creation time ascending,
  then id ascending. The priority is the optional integer \<open>priority\<close> of the task.
\<close>

definition task_priority :: "json \<Rightarrow> int" where
  "task_priority task = (case js_get task ''priority'' of Some (JNum n) \<Rightarrow> n | _ \<Rightarrow> 0)"

definition task_id :: "json \<Rightarrow> string" where
  "task_id task = (case js_get task ''id'' of Some (JStr s) \<Rightarrow> s | _ \<Rightarrow> [])"

definition spec_before :: "process \<Rightarrow> json \<Rightarrow> json \<Rightarrow> bool" where
  "spec_before h a b =
     (task_priority b < task_priority a
      \<or> (task_priority a = task_priority b
          \<and> (case (created_time h a, created_time h b) of
                (Some x, Some y) \<Rightarrow> x < y \<or> (x = y \<and> str_le (task_id a) (task_id b))
              | _ \<Rightarrow> False)))"

definition spec_ordered :: "process \<Rightarrow> json list \<Rightarrow> bool" where
  "spec_ordered h tasks = sorted_wrt (spec_before h) tasks"

text \<open>
  The test of \<open>WatcherLoop.acquireWorkerLock\<close> for a stale lock: the text of the lock
  file parses, and the time it records lies more than five minutes back.
\<close>

definition lock_stale :: "process \<Rightarrow> int \<Rightarrow> string \<Rightarrow> bool" where
  "lock_stale h now text =
     (case JSON_parse h text of
        Inl e \<Rightarrow> False
      | Inr lockData \<Rightarrow>
          lockData \<noteq> JNull \<and>
          (case Date_getTime h (js_get lockData ''acquired'') of
             None \<Rightarrow> False
           | Some lockTime \<Rightarrow> LOCK_STALE_MS < now - lockTime))"

text \<open>The creation time of a task whose date is valid.\<close>

definition ctime :: "process \<Rightarrow> json \<Rightarrow> int" where
  "ctime h task = (case created_time h task of None \<Rightarrow> 0 | Some x \<Rightarrow> x)"

text \<open>The tasks that load, in the order of the file names.\<close>

definition loadable :: "process \<Rightarrow> string \<Rightarrow> string \<Rightarrow> fs \<Rightarrow> string list \<Rightarrow> json list" where
  "loadable h tasksDir root fs files =
     List.map_filter
       (\<lambda>file. case loadTask h (path_join [tasksDir, file]) root fs of
                 Inl e \<Rightarrow> None
               | Inr task \<Rightarrow> Some task)
       files"

section \<open>The locking module: the standalone \<open>acquireWorkerLock\<close>\<close>

text \<open>
  The helper \<open>acquireWorkerLock(lockDir, root)\<close> of the locking utilities, which \<open>run\<close>
  does not call. Its calls are those of the source, argument for argument:
  \<open>fsSafe.exists(root, lockPath)\<close>, \<open>fsSafe.read(root, lockPath)\<close>,
  \<open>fsSafe.unlink(root, lockPath)\<close>, \<open>fsSafe.mkdir(root, lockDir)\<close> and
  \<open>fsSafe.writeAtomic(root, lockPath, text)\<close>, against signatures that take the path
  first and the root last. \<open>kill_ok pid\<close> tells whether \<open>process.kill(pid, 0)\<close> returns
  without throwing. An error inside the \<open>try\<close> block leads to the \<open>catch\<close>, which
  unlinks the lock file; an error outside is thrown to the caller.
\<close>

definition WORKER_LOCK_FILE :: string where
  "WORKER_LOCK_FILE = ''__worker__.lock''"

definition metadata_text :: "process \<Rightarrow> int \<Rightarrow> string" where
  "metadata_text h now =
     JSON_stringify h (JObj [(''pid'', JNum (proc_pid h)), (''host'', JStr (os_hostname h)),
                             (''created_at'', JStr (Date_toISOString h now))])"

definition locks_write_lock ::
  "process \<Rightarrow> int \<Rightarrow> 8 word list \<Rightarrow> string \<Rightarrow> string \<Rightarrow> fs \<Rightarrow> (error + bool) \<times> fs"
where
  "locks_write_lock h now rnd lockDir root fs =
     (case fsSafe_mkdir (proc_cwd h) root lockDir fs of
        Inl e \<Rightarrow> (Inl e, fs)
      | Inr fs1 \<Rightarrow>
          (case fsSafe_writeAtomic (proc_cwd h) rnd root (path_join [lockDir, WORKER_LOCK_FILE])
                  (metadata_text h now) fs1 of
             (Inl e, fs2) \<Rightarrow> (Inl e, fs2)
           | (Inr u, fs2) \<Rightarrow> (Inr True, fs2)))"

definition locks_remove_invalid ::
  "process \<Rightarrow> int \<Rightarrow> 8 word list \<Rightarrow> string \<Rightarrow> string \<Rightarrow> fs \<Rightarrow> (error + bool) \<times> fs"
where
  "locks_remove_invalid h now rnd lockDir root fs =
     (case fsSafe_unlink (proc_cwd h) root (path_join [lockDir, WORKER_LOCK_FILE]) fs of
        Inl e \<Rightarrow> (Inl e, fs)
      | Inr fs1 \<Rightarrow> locks_write_lock h now rnd lockDir root fs1)"

definition locks_acquireWorkerLock ::
  "process \<Rightarrow> (json option \<Rightarrow> bool) \<Rightarrow> int \<Rightarrow> 8 word list \<Rightarrow> string \<Rightarrow> string \<Rightarrow> fs
     \<Rightarrow> (error + bool) \<times> fs"
where
  "locks_acquireWorkerLock h kill_ok now rnd lockDir root fs =
     (let lockPath = path_join [lockDir, WORKER_LOCK_FILE]
      in case fsSafe_exists (proc_cwd h) root lockPath fs of
           Inl e \<Rightarrow> (Inl e, fs)
         | Inr False \<Rightarrow> locks_write_lock h now rnd lockDir root fs
         | Inr True \<Rightarrow>
             (case fsSafe_read (proc_cwd h) root lockPath fs of
                Inl e \<Rightarrow> locks_remove_invalid h now rnd lockDir root fs
              | Inr text \<Rightarrow>
                  (case JSON_parse h text of
                     Inl e \<Rightarrow> locks_remove_invalid h now rnd lockDir root fs
                   | Inr metadata \<Rightarrow>
                       if metadata = JNull then locks_remove_invalid h now rnd lockDir root fs
                       else if js_get metadata ''host'' = Some (JStr (os_hostname h))
                       then (if kill_ok (js_get metadata ''pid'') then (Inr False, fs)
                             else (case fsSafe_unlink (proc_cwd h) root lockPath fs of
                                     Inl e \<Rightarrow> locks_remove_invalid h now rnd lockDir root fs
                                   | Inr fs1 \<Rightarrow> locks_write_lock h now rnd lockDir root fs1))
                       else (Inr False, fs))))"

section \<open>An example host\<close>

text \<open>
  A host for the concrete instances below. Its parser reads the text \<open>A\<close> as a task
  \<open>a\<close> of priority 1 created at \<open>d1\<close>, \<open>B\<close> as a task \<open>b\<close> of priority 9 created at
  \<open>d2\<close>, \<open>C\<close> as a task \<open>c\<close> of priority 1 created at \<open>d1\<close>, \<open>L\<close> as a worker lock
  recorded on this host by process 4242 at \<open>d1\<close>, and nothing else; the dates \<open>d1\<close> and
  \<open>d2\<close> are the times 1000 and 2000.
\<close>

definition example_task :: "string \<Rightarrow> string \<Rightarrow> int \<Rightarrow> json" where
  "example_task i created priority =
     JObj [(''id'', JStr i), (''created'', JStr created), (''title'', JStr ''t''),
           (''prompt'', JStr ''p''), (''scope'', JArr [JStr ''src'']),
           (''verify'', JArr [JObj [(''cmd'', JStr ''true''), (''args'', JArr [])]]),
           (''priority'', JNum priority)]"

definition example_lock :: json where
  "example_lock = JObj [(''pid'', JNum 4242), (''acquired'', JStr ''d1''), (''hostname'', JStr ''box'')]"

definition example_host :: process where
  "example_host =
     \<lparr>proc_cwd = ''/w'', proc_pid = 77, os_hostname = ''box'',
      JSON_parse = (\<lambda>s. if s = ''A'' then Inr (example_task ''a'' ''d1'' 1)
                        else if s = ''B'' then Inr (example_task ''b'' ''d2'' 9)
                        else if s = ''C'' then Inr (example_task ''c'' ''d1'' 1)
                        else if s = ''L'' then Inr example_lock
                        else Inl SyntaxError),
      JSON_stringify = (\<lambda>j. ''J''),
      Result_stringify = (\<lambda>r. ''R''),
      Date_getTime = (\<lambda>v. if v = Some (JStr ''d1'') then Some 1000
                          else if v = Some (JStr ''d2'') then Some 2000 else None),
      Date_toISOString = (\<lambda>t. ''T'')\<rparr>"

definition example_dirs :: fs where
  "example_dirs =
     [(''/repo'', Dir), (''/repo/.ai-handoff'', Dir), (''/repo/.ai-handoff/tasks'', Dir),
      (''/repo/.ai-handoff/results'', Dir), (''/repo/.ai-handoff/locks'', Dir)]"


section \<open>Properties\<close>

subsection \<open>Strings\<close>

lemma startsWith_prefix: "startsWith s p \<longleftrightarrow> prefix p s"
  unfolding startsWith_def
  by (metis append_eq_conv_conj prefix_def)

lemma endsWith_suffix: "endsWith s p \<longleftrightarrow> suffix p s"
proof
  assume "endsWith s p"
  then have "s = take (length s - length p) s @ p"
    unfolding endsWith_def by (metis append_take_drop_id)
  then show "suffix p s"
    unfolding suffix_def by blast
next
  assume "suffix p s"
  then obtain d where "s = d @ p"
    unfolding suffix_def by blast
  then show "endsWith s p"
    by (simp add: endsWith_def)
qed

subsection \<open>filterEnv\<close>

lemma map_of_obj_set: "map_of (obj_set kvs key v) = (map_of kvs)(key \<mapsto> v)"
  by (induction kvs key v rule: obj_set.induct) (auto simp: fun_upd_twist)

lemma map_of_filterEnv_loop:
  "map_of (filterEnv_loop keys env filtered) k =
     (if k \<in> set keys \<and> (\<exists>v. env k = Some v \<and> v \<noteq> []) then env k else map_of filtered k)"
proof (induction keys arbitrary: filtered)
  case Nil
  then show ?case by simp
next
  case (Cons key keys)
  then show ?case
    by (auto simp: map_of_obj_set split: option.splits)
qed

lemma fst_set_obj_set: "fst ` set (obj_set kvs key v) = insert key (fst ` set kvs)"
  by (induction kvs key v rule: obj_set.induct) auto

lemma distinct_obj_set: "distinct (map fst kvs) \<Longrightarrow> distinct (map fst (obj_set kvs key v))"
proof (induction kvs key v rule: obj_set.induct)
  case (1 key v)
  then show ?case by simp
next
  case (2 k w kvs key v)
  then show ?case
    using fst_set_obj_set [of kvs key v] by (auto simp: image_iff)
qed

lemma distinct_filterEnv_loop:
  "distinct (map fst filtered) \<Longrightarrow> distinct (map fst (filterEnv_loop keys env filtered))"
  by (induction keys arbitrary: filtered) (auto simp: distinct_obj_set split: option.splits)

text \<open>
  C10. The result of \<open>filterEnv\<close> holds a key with a value exactly when the key is one of
  the eight allow-listed names and the input maps it to that value and the value is not
  the empty string; no key occurs twice. So no key outside the allow-list is in the
  output, and an allow-listed variable set to the empty string is dropped.
\<close>

theorem filterEnv_allowlist:
  "((k, v) \<in> set (filterEnv env) \<longleftrightarrow>
      k \<in> {''CI'', ''NODE_ENV'', ''HOME'', ''PATH'', ''TERM'', ''LANG'', ''LC_ALL'', ''TZ''}
      \<and> env k = Some v \<and> v \<noteq> [])
   \<and> distinct (map fst (filterEnv env))"
proof -
  have d: "distinct (map fst (filterEnv env))"
    unfolding filterEnv_def by (rule distinct_filterEnv_loop) simp
  have "(k, v) \<in> set (filterEnv env) \<longleftrightarrow> map_of (filterEnv env) k = Some v"
    using d by simp
  also have "\<dots> \<longleftrightarrow> k \<in> set ALLOWED_ENV_VARS \<and> env k = Some v \<and> v \<noteq> []"
    unfolding filterEnv_def map_of_filterEnv_loop by auto
  finally show ?thesis
    using d by (simp add: ALLOWED_ENV_VARS_def)
qed

theorem filterEnv_allowlist_witness:
  "filterEnv [''PATH'' \<mapsto> ''/bin'', ''TZ'' \<mapsto> '''', ''SECRET'' \<mapsto> ''x''] = [(''PATH'', ''/bin'')]
   \<and> (''TZ'', '''') \<notin> set (filterEnv [''PATH'' \<mapsto> ''/bin'', ''TZ'' \<mapsto> '''', ''SECRET'' \<mapsto> ''x''])
   \<and> (''SECRET'', ''x'') \<notin> set (filterEnv [''PATH'' \<mapsto> ''/bin'', ''TZ'' \<mapsto> '''', ''SECRET'' \<mapsto> ''x''])"
  using filterEnv_allowlist [of "''TZ''" "''''" "[''PATH'' \<mapsto> ''/bin'', ''TZ'' \<mapsto> '''', ''SECRET'' \<mapsto> ''x'']"]
    filterEnv_allowlist [of "''SECRET''" "''x''" "[''PATH'' \<mapsto> ''/bin'', ''TZ'' \<mapsto> '''', ''SECRET'' \<mapsto> ''x'']"]
  by (simp add: filterEnv_def ALLOWED_ENV_VARS_def)

subsection \<open>validateScope\<close>

lemma scope_entry_allows_iff:
  "scope_entry_allows file S \<longleftrightarrow>
     file = S \<or> prefix (S @ ''/'') file \<or> (\<exists>d. S = d @ ''/*'' \<and> prefix (d @ ''/'') file)"
proof -
  have glob: "endsWith S ''/*'' \<and> startsWith file (slice_to_neg S 2 @ ''/'')
      \<longleftrightarrow> (\<exists>d. S = d @ ''/*'' \<and> prefix (d @ ''/'') file)"
  proof
    assume a: "endsWith S ''/*'' \<and> startsWith file (slice_to_neg S 2 @ ''/'')"
    then obtain d where d: "S = d @ ''/*''"
      unfolding endsWith_suffix suffix_def by blast
    then have "slice_to_neg S 2 = d"
      by (simp add: slice_to_neg_def)
    with a d show "\<exists>d. S = d @ ''/*'' \<and> prefix (d @ ''/'') file"
      by (auto simp: startsWith_prefix)
  next
    assume "\<exists>d. S = d @ ''/*'' \<and> prefix (d @ ''/'') file"
    then obtain d where d: "S = d @ ''/*''" and p: "prefix (d @ ''/'') file"
      by blast
    from d have "slice_to_neg S 2 = d"
      by (simp add: slice_to_neg_def)
    moreover from d have "endsWith S ''/*''"
      unfolding endsWith_suffix suffix_def by blast
    ultimately show "endsWith S ''/*'' \<and> startsWith file (slice_to_neg S 2 @ ''/'')"
      using p by (simp add: startsWith_prefix)
  qed
  show ?thesis
    unfolding scope_entry_allows_def Let_def
    using glob by (auto simp: startsWith_prefix)
qed

lemma list_ex_scope_admits:
  "list_ex (scope_entry_allows file) scope \<longleftrightarrow> scope_admits scope file"
  unfolding list_ex_iff scope_admits_def scope_entry_allows_iff ..

lemma validateScope_loop_filter:
  "validateScope_loop scope changes acc = acc @ filter (\<lambda>f. \<not> scope_admits scope f) changes"
  by (induction changes arbitrary: acc) (simp_all add: list_ex_scope_admits)

text \<open>
  C2. \<open>validateScope\<close> reports exactly the changed files that no scope entry admits, in
  their order: a changed file is a violation if and only if no entry \<open>S\<close> equals it, is
  a directory prefix of it (\<open>S/\<close>), or ends in \<open>/*\<close> with the directory before the
  \<open>/*\<close>, followed by \<open>/\<close>, a prefix of it. The check passes exactly when there is no
  violation, and the entry \<open>src/*\<close> admits \<open>src/a.txt\<close> and \<open>src/sub/b.txt\<close>.
\<close>

theorem validateScope_rules:
  "violations (validateScope scope changes) = filter (\<lambda>f. \<not> scope_admits scope f) changes
   \<and> (f \<in> set (violations (validateScope scope changes)) \<longleftrightarrow>
        f \<in> set changes \<and>
        \<not> (\<exists>S \<in> set scope.
              f = S \<or> prefix (S @ ''/'') f \<or> (\<exists>d. S = d @ ''/*'' \<and> prefix (d @ ''/'') f)))
   \<and> (scope_check.passed (validateScope scope changes) \<longleftrightarrow> violations (validateScope scope changes) = [])
   \<and> validateScope [''src/*''] [''src/a.txt'', ''src/sub/b.txt''] = \<lparr>scope_check.passed = True, violations = []\<rparr>"
proof -
  have v: "violations (validateScope scope changes) = filter (\<lambda>f. \<not> scope_admits scope f) changes"
    by (simp add: validateScope_def validateScope_loop_filter Let_def)
  have ex: "validateScope [''src/*''] [''src/a.txt'', ''src/sub/b.txt''] = \<lparr>scope_check.passed = True, violations = []\<rparr>"
    by (simp add: validateScope_def scope_entry_allows_def startsWith_def endsWith_def slice_to_neg_def)
  show ?thesis
    using v ex by (auto simp: scope_admits_def validateScope_def Let_def)
qed

theorem validateScope_rules_witness:
  "violations (validateScope [''src/a.txt'', ''lib''] [''src/a.txt'', ''README.md'', ''lib/x.ts'']) = [''README.md'']
   \<and> \<not> scope_check.passed (validateScope [''src/a.txt'', ''lib''] [''src/a.txt'', ''README.md'', ''lib/x.ts''])
   \<and> ''README.md'' \<in> set [''src/a.txt'', ''README.md'', ''lib/x.ts'']
   \<and> \<not> scope_admits [''src/a.txt'', ''lib''] ''README.md''"
  using validateScope_rules [of "[''src/a.txt'', ''lib'']" "[''src/a.txt'', ''README.md'', ''lib/x.ts'']" "''README.md''"]
  by (simp add: validateScope_def scope_entry_allows_def startsWith_def endsWith_def slice_to_neg_def
      scope_admits_def)

subsection \<open>The scanner returns\<close>

text \<open>
  The least number of code units an expression matches. Every expression of the
  catalogue needs at least one, so the \<open>exec\<close> loop moves on after each match and ends.
\<close>

lemma match_min_length:
  "(match_here r s = Some m \<longrightarrow> sum_list (map (\<lambda>(cl, lo, hi). lo) r) \<le> m)"
  "(match_back r s k lo = Some m' \<longrightarrow> lo \<le> k \<longrightarrow> lo + sum_list (map (\<lambda>(cl, lo, hi). lo) r) \<le> m')"
proof (induction r s and r s k lo arbitrary: m and m' rule: match_here_match_back.induct)
  case (1 s)
  show ?case by simp
next
  case (2 cl lo hi rest s)
  show ?case
  proof
    assume a: "match_here ((cl, lo, hi) # rest) s = Some m"
    let ?k = "case hi of None \<Rightarrow> run_length cl s | Some h \<Rightarrow> min (run_length cl s) h"
    from a have nlt: "\<not> ?k < lo" and mb: "match_back rest s ?k lo = Some m"
      by (auto simp: Let_def split: if_splits)
    from "2.IH" [OF refl refl nlt, of m] mb nlt
    show "sum_list (map (\<lambda>(cl, lo, hi). lo) ((cl, lo, hi) # rest)) \<le> m"
      by simp
  qed
next
  case (3 rest s k lo)
  show ?case
  proof (intro impI)
    assume a: "match_back rest s k lo = Some m'" and le: "lo \<le> k"
    show "lo + sum_list (map (\<lambda>(cl, lo, hi). lo) rest) \<le> m'"
    proof (cases "match_here rest (drop k s)")
      case (Some m0)
      with a have "m' = k + m0" by simp
      moreover from "3.IH"(1) [of m0] Some have "sum_list (map (\<lambda>(cl, lo, hi). lo) rest) \<le> m0"
        by simp
      ultimately show ?thesis using le by simp
    next
      case None
      with a have nle: "\<not> k \<le> lo" and mb: "match_back rest s (k - 1) lo = Some m'"
        by (auto split: if_splits)
      from "3.IH"(2) [OF None nle, of m'] mb nle show ?thesis
        by simp
    qed
  qed
qed

lemma exec_from_match:
  "exec_from r s i = Some (j, m) \<Longrightarrow> match_here r (drop j s) = Some m"
proof (induction r s i rule: exec_from.induct)
  case (1 r s i)
  show ?case
  proof (cases "match_here r (drop i s)")
    case None
    with "1.prems" have "exec_from r s (Suc i) = Some (j, m)" and "\<not> length s < i"
      by (auto split: if_splits)
    with "1.IH" None show ?thesis by fastforce
  next
    case (Some m')
    with "1.prems" show ?thesis by (auto split: if_splits)
  qed
qed

lemma exec_all_returns:
  "0 < sum_list (map (\<lambda>(cl, lo, hi). lo) r) \<Longrightarrow> \<exists>idxs. exec_all r s i = Some idxs"
proof (induction r s i rule: exec_all.induct)
  case (1 r s lastIndex)
  note IH = "1.IH" and pos = "1.prems"
  show ?case
  proof (cases "exec_from r s lastIndex")
    case None
    then show ?thesis by simp
  next
    case (Some p)
    obtain j m where p: "p = (j, m)" by (cases p)
    from Some p have "match_here r (drop j s) = Some m"
      by (simp add: exec_from_match)
    with match_min_length(1) [of r "drop j s" m] pos have m: "m \<noteq> 0"
      by auto
    from IH [OF Some p [symmetric] m pos] obtain rest where "exec_all r s (j + m) = Some rest"
      by blast
    with Some p m show ?thesis by simp
  qed
qed

lemma findMatches_loop_returns:
  "\<forall>(name, r) \<in> set ps. 0 < sum_list (map (\<lambda>(cl, lo, hi). lo) r) \<Longrightarrow>
   \<exists>found'. findMatches_loop ps s lineOffset found = Some found'"
proof (induction ps arbitrary: found)
  case Nil
  then show ?case by simp
next
  case (Cons p ps)
  obtain name r where p: "p = (name, r)" by (cases p)
  with Cons.prems have "0 < sum_list (map (\<lambda>(cl, lo, hi). lo) r)"
    by simp
  then obtain idxs where "exec_all r s 0 = Some idxs"
    using exec_all_returns by blast
  moreover from Cons.prems have "\<forall>(name, r) \<in> set ps. 0 < sum_list (map (\<lambda>(cl, lo, hi). lo) r)"
    by simp
  ultimately show ?case
    using Cons.IH p by simp
qed

lemma CORE_PATTERNS_nonempty_matches:
  "\<forall>(name, r) \<in> set CORE_PATTERNS. 0 < sum_list (map (\<lambda>(cl, lo, hi). lo) r)"
  by (simp add: CORE_PATTERNS_def lit_def)

lemma findMatches_returns:
  "StreamScanner.patterns this = CORE_PATTERNS \<Longrightarrow> \<exists>found. findMatches this s lineOffset = Some found"
  unfolding findMatches_def
  using findMatches_loop_returns [OF CORE_PATTERNS_nonempty_matches] by simp

lemma scan_returns:
  assumes "StreamScanner.patterns this = CORE_PATTERNS"
  shows "\<exists>result this'. scan this chunk = Some (result, this') \<and> StreamScanner.patterns this' = CORE_PATTERNS"
proof -
  obtain found where "findMatches this (overlapBuffer this @ chunk) (totalLines this) = Some found"
    using findMatches_returns [OF assms] by blast
  then show ?thesis
    using assms by (simp add: scan_def Let_def)
qed

lemma finalize_returns:
  assumes "StreamScanner.patterns this = CORE_PATTERNS"
  shows "\<exists>result this'. finalize this = Some (result, this')"
proof -
  obtain found where "findMatches this (overlapBuffer this) (totalLines this) = Some found"
    using findMatches_returns [OF assms] by blast
  then show ?thesis
    by (simp add: finalize_def)
qed

lemma scanString_returns: "\<exists>result. scanString s = Some result"
proof -
  have "StreamScanner.patterns new_StreamScanner = CORE_PATTERNS"
    by (simp add: new_StreamScanner_def)
  from scan_returns [OF this, of s] obtain result this' where
    s: "scan new_StreamScanner s = Some (result, this')" and p: "StreamScanner.patterns this' = CORE_PATTERNS"
    by blast
  from finalize_returns [OF p] obtain final this'' where "finalize this' = Some (final, this'')"
    by blast
  with s show ?thesis
    by (simp add: scanString_def)
qed

subsection \<open>Streaming against scanning the whole string\<close>

text \<open>
  C1. The code at the stream of the two chunks \<open>"\n"\<close> and \<open>"sk-abcdefghij"\<close>, whose
  concatenation holds one occurrence of \<open>OPENAI_KEY\<close> (line 2, column 1). Streaming
  reports that occurrence twice, from the second \<open>scan\<close> and again from \<open>finalize\<close>, both
  times on line 3; \<open>scanString\<close> on the whole string reports it on line 2 and again on
  line 3. So the two sets of reported matches differ, and one occurrence is reported
  more than once.
\<close>

theorem streaming_differs_from_scanString:
  "stream_reports [[CHR 0x0A], ''sk-abcdefghij''] =
     Some [\<lparr>pattern = ''OPENAI_KEY'', line = 3, column = 1\<rparr>,
           \<lparr>pattern = ''OPENAI_KEY'', line = 3, column = 1\<rparr>]
   \<and> scanString (concat [[CHR 0x0A], ''sk-abcdefghij'']) =
     Some \<lparr>matches = [\<lparr>pattern = ''OPENAI_KEY'', line = 2, column = 1\<rparr>,
                      \<lparr>pattern = ''OPENAI_KEY'', line = 3, column = 1\<rparr>],
           hasSecrets = True\<rparr>"
  by code_simp

subsection \<open>validateTask\<close>

lemma validate_scope_items_None:
  "validate_scope_items scope = None \<longleftrightarrow> (\<forall>s \<in> set scope. is_string (Some s))"
  by (induction scope) auto

lemma validate_scope_items_Some:
  "validate_scope_items scope = Some e \<Longrightarrow> \<exists>msg field. e = TaskValidationError msg field"
  by (induction scope) (auto split: if_splits)

lemma validate_verify_items_None:
  "validate_verify_items verify = None \<longleftrightarrow>
     (\<forall>v \<in> set verify. is_object v \<and> is_string (js_get v ''cmd'') \<and> isArray (js_get v ''args''))"
  by (induction verify) auto

lemma validate_verify_items_Some:
  "validate_verify_items verify = Some e \<Longrightarrow> \<exists>msg field. e = TaskValidationError msg field"
  by (induction verify) (auto split: if_splits)

lemma validate_scope_items_fails:
  "validate_scope_items scope = Some e \<Longrightarrow> \<exists>s \<in> set scope. \<not> is_string (Some s)"
  using validate_scope_items_None [of scope] by auto

lemma validate_verify_items_fails:
  "validate_verify_items verify = Some e \<Longrightarrow>
     \<exists>v \<in> set verify. \<not> (is_object v \<and> is_string (js_get v ''cmd'') \<and> isArray (js_get v ''args''))"
  using validate_verify_items_None [of verify] by auto

lemma validateTask_Inr: "validateTask obj = Inr t \<longleftrightarrow> t = obj \<and> task_shape obj"
proof (cases "\<exists>scope verify. js_get obj ''scope'' = Some (JArr scope) \<and> js_get obj ''verify'' = Some (JArr verify)")
  case True
  then obtain scope verify where sv: "js_get obj ''scope'' = Some (JArr scope)"
      "js_get obj ''verify'' = Some (JArr verify)"
    by blast
  show ?thesis
  proof (cases "validate_scope_items scope")
    case None
    show ?thesis
    proof (cases "validate_verify_items verify")
      case None
      note n = \<open>validate_scope_items scope = None\<close> None
      from n sv validate_scope_items_None [of scope, THEN iffD1, OF n(1)]
        validate_verify_items_None [of verify, THEN iffD1, OF n(2)]
      show ?thesis
        unfolding validateTask_def task_shape_def by auto
    next
      case (Some e)
      from validate_verify_items_fails [OF Some] Some \<open>validate_scope_items scope = None\<close> sv
      show ?thesis
        unfolding validateTask_def task_shape_def by auto
    qed
  next
    case (Some e)
    from validate_scope_items_fails [OF Some] Some sv show ?thesis
      unfolding validateTask_def task_shape_def by auto
  qed
next
  case False
  then show ?thesis
    unfolding validateTask_def task_shape_def
    by (auto split: option.splits json.splits)
qed

lemma validateTask_Inl:
  "validateTask obj = Inl e \<Longrightarrow> \<exists>msg field. e = TaskValidationError msg field"
  unfolding validateTask_def
  by (auto split: option.splits json.splits if_splits
      dest: validate_scope_items_Some validate_verify_items_Some)

text \<open>
  C5, as the code has it. \<open>validateTask\<close> accepts an input, returning it unchanged, if and
  only if it is an object whose \<open>id\<close>, \<open>created\<close>, \<open>title\<close> and \<open>prompt\<close> are non-empty
  strings, whose \<open>scope\<close> is an array of strings and whose \<open>verify\<close> is an array of objects
  with a string \<open>cmd\<close> and an array \<open>args\<close>; every other input is rejected with a
  \<open>TaskValidationError\<close>.
\<close>

theorem validateTask_accepts_shape:
  "(validateTask obj = Inr t \<longleftrightarrow> t = obj \<and> task_shape obj)
   \<and> (\<not> task_shape obj \<longrightarrow> (\<exists>msg field. validateTask obj = Inl (TaskValidationError msg field)))"
proof -
  have "\<exists>msg field. validateTask obj = Inl (TaskValidationError msg field)" if "\<not> task_shape obj"
  proof (cases "validateTask obj")
    case (Inl e)
    then show ?thesis using validateTask_Inl by blast
  next
    case (Inr t)
    with that show ?thesis by (simp add: validateTask_Inr)
  qed
  then show ?thesis
    by (simp add: validateTask_Inr)
qed

theorem validateTask_accepts_shape_witness:
  "\<not> task_shape (JObj [(''id'', JStr ''t1''), (''created'', JStr ''2026-01-17''), (''title'', JStr ''fix''),
       (''prompt'', JStr ''do''), (''scope'', JArr [JNum 3]), (''verify'', JArr [])])
   \<and> (\<exists>msg field. validateTask (JObj [(''id'', JStr ''t1''), (''created'', JStr ''2026-01-17''),
       (''title'', JStr ''fix''), (''prompt'', JStr ''do''), (''scope'', JArr [JNum 3]), (''verify'', JArr [])])
         = Inl (TaskValidationError msg field))"
  using validateTask_accepts_shape [of "JObj [(''id'', JStr ''t1''), (''created'', JStr ''2026-01-17''),
       (''title'', JStr ''fix''), (''prompt'', JStr ''do''), (''scope'', JArr [JNum 3]), (''verify'', JArr [])]"]
  by (simp add: task_shape_def js_get_def is_string_def)

text \<open>
  C5, as stated, fails: the code accepts a task whose id is \<open>../x\<close>, a task whose scope
  is empty, and a task whose verify entry has the empty \<open>cmd\<close>.
\<close>

theorem validateTask_invariants_counterexample:
  "validateTask (JObj [(''id'', JStr ''../x''), (''created'', JStr ''c''), (''title'', JStr ''t''),
       (''prompt'', JStr ''p''), (''scope'', JArr [JStr ''src'']),
       (''verify'', JArr [JObj [(''cmd'', JStr ''true''), (''args'', JArr [])]])])
     = Inr (JObj [(''id'', JStr ''../x''), (''created'', JStr ''c''), (''title'', JStr ''t''),
       (''prompt'', JStr ''p''), (''scope'', JArr [JStr ''src'']),
       (''verify'', JArr [JObj [(''cmd'', JStr ''true''), (''args'', JArr [])]])])
   \<and> \<not> task_invariants (JObj [(''id'', JStr ''../x''), (''created'', JStr ''c''), (''title'', JStr ''t''),
       (''prompt'', JStr ''p''), (''scope'', JArr [JStr ''src'']),
       (''verify'', JArr [JObj [(''cmd'', JStr ''true''), (''args'', JArr [])]])])
   \<and> validateTask (JObj [(''id'', JStr ''t1''), (''created'', JStr ''c''), (''title'', JStr ''t''),
       (''prompt'', JStr ''p''), (''scope'', JArr []),
       (''verify'', JArr [JObj [(''cmd'', JStr ''''), (''args'', JArr [])]])])
     = Inr (JObj [(''id'', JStr ''t1''), (''created'', JStr ''c''), (''title'', JStr ''t''),
       (''prompt'', JStr ''p''), (''scope'', JArr []),
       (''verify'', JArr [JObj [(''cmd'', JStr ''''), (''args'', JArr [])]])])
   \<and> \<not> task_invariants (JObj [(''id'', JStr ''t1''), (''created'', JStr ''c''), (''title'', JStr ''t''),
       (''prompt'', JStr ''p''), (''scope'', JArr []),
       (''verify'', JArr [JObj [(''cmd'', JStr ''''), (''args'', JArr [])]])])"
  by (simp add: validateTask_def task_invariants_def js_get_def is_object_def is_string_def
      is_nonempty_string_def isArray_def id_char_def alnum_def)

subsection \<open>The incident of a detected secret\<close>

lemma scan_hasSecrets: "scan this chunk = Some (r, this') \<Longrightarrow> hasSecrets r \<longleftrightarrow> matches r \<noteq> []"
  by (auto simp: scan_def Let_def split: option.splits)

lemma finalize_hasSecrets: "finalize this = Some (r, this') \<Longrightarrow> hasSecrets r \<longleftrightarrow> matches r \<noteq> []"
  by (auto simp: finalize_def split: option.splits if_splits)

text \<open>
  C4, as the code has it. A secret is detected for a command exactly when the three
  calls on its output (\<open>scan\<close> of the standard output, \<open>scan\<close> of the standard error,
  \<open>finalize\<close>) report a match. The result then has the status \<open>secret_detected\<close> and an
  incident whose hash is the first 16 hexadecimal characters of SHA-256 of the task id
  immediately followed by the pattern names of all reported matches, in the order of
  the reports, joined by commas; its \<open>patterns\<close> are the distinct names and its
  \<open>matchCount\<close> the number of reports.
\<close>

theorem secret_incident_hash:
  "scan_command_output now tid started stdout stderr = Some (Some r) \<longleftrightarrow>
     (\<exists>ms. stream_reports [stdout, stderr] = Some ms \<and> ms \<noteq> [] \<and>
        r = createSecretDetectedResult now tid started
              \<lparr>patterns = uniq (map pattern ms), matchCount = length ms,
               incidentHash = take 16 (sha256_hex (tid @ join_comma (map pattern ms)))\<rparr>)"
proof (cases "scan new_StreamScanner stdout")
  case None
  then show ?thesis
    by (simp add: scan_command_output_def stream_reports_def)
next
  case (Some p1)
  obtain r1 s1 where p1: "p1 = (r1, s1)" by (cases p1)
  show ?thesis
  proof (cases "scan s1 stderr")
    case None
    with Some p1 show ?thesis
      by (simp add: scan_command_output_def stream_reports_def)
  next
    case (Some p2)
    obtain r2 s2 where p2: "p2 = (r2, s2)" by (cases p2)
    show ?thesis
    proof (cases "finalize s2")
      case None
      with Some \<open>scan new_StreamScanner stdout = Some p1\<close> p1 p2 show ?thesis
        by (simp add: scan_command_output_def stream_reports_def)
    next
      case (Some p3)
      obtain r3 s3 where p3: "p3 = (r3, s3)" by (cases p3)
      note calls = \<open>scan new_StreamScanner stdout = Some p1\<close> [unfolded p1]
        \<open>scan s1 stderr = Some p2\<close> [unfolded p2] Some [unfolded p3]
      have reports: "stream_reports [stdout, stderr] = Some (matches r1 @ matches r2 @ matches r3)"
        using calls by (simp add: stream_reports_def)
      have secrets: "hasSecrets r1 \<or> hasSecrets r2 \<or> hasSecrets r3
          \<longleftrightarrow> matches r1 @ matches r2 @ matches r3 \<noteq> []"
        using scan_hasSecrets [OF calls(1)] scan_hasSecrets [OF calls(2)]
          finalize_hasSecrets [OF calls(3)] by simp
      show ?thesis
        unfolding scan_command_output_def reports
        using calls secrets by (auto simp: make_incident_def Let_def)
    qed
  qed
qed

theorem secret_incident_hash_witness:
  "scan_command_output 5 ''t1'' 2 ''sk-abcdefghij'' [] =
     Some (Some (createSecretDetectedResult 5 ''t1'' 2
       \<lparr>patterns = [''OPENAI_KEY''], matchCount = 3,
        incidentHash = take 16 (sha256_hex ''t1OPENAI_KEY,OPENAI_KEY,OPENAI_KEY'')\<rparr>))"
proof -
  have "stream_reports [''sk-abcdefghij'', []] =
      Some [\<lparr>pattern = ''OPENAI_KEY'', line = 1, column = 1\<rparr>,
            \<lparr>pattern = ''OPENAI_KEY'', line = 1, column = 1\<rparr>,
            \<lparr>pattern = ''OPENAI_KEY'', line = 1, column = 1\<rparr>]"
    by code_simp
  then show ?thesis
    using secret_incident_hash [of 5 "''t1''" 2 "''sk-abcdefghij''" "[]"
        "createSecretDetectedResult 5 ''t1'' 2
          \<lparr>patterns = [''OPENAI_KEY''], matchCount = 3,
           incidentHash = take 16 (sha256_hex ''t1OPENAI_KEY,OPENAI_KEY,OPENAI_KEY'')\<rparr>"]
    by (simp add: eval_nat_numeral)
qed

text \<open>
  C4, as stated, fails. For the task \<open>t1\<close> whose command prints \<open>sk-abcdefghij\<close>, the
  incident hash of the result is \<open>13022b29b0045ade\<close>, from the hash of
  \<open>t1OPENAI_KEY,OPENAI_KEY,OPENAI_KEY\<close>, and the hash of \<open>t1,OPENAI_KEY\<close> starts with
  \<open>6fde7a56a7918f46\<close>.
\<close>

theorem secret_incident_hash_counterexample:
  "scan_command_output 5 ''t1'' 2 ''sk-abcdefghij'' [] =
     Some (Some (createSecretDetectedResult 5 ''t1'' 2
       \<lparr>patterns = [''OPENAI_KEY''], matchCount = 3, incidentHash = ''13022b29b0045ade''\<rparr>))
   \<and> spec_incident_hash ''t1'' [''OPENAI_KEY''] = ''6fde7a56a7918f46''
   \<and> ''13022b29b0045ade'' \<noteq> spec_incident_hash ''t1'' [''OPENAI_KEY'']"
  by code_simp

subsection \<open>Paths\<close>

lemma split_on_sep_free: "\<forall>x \<in> set (split_on c s). c \<notin> set x"
  by (induction c s rule: split_on.induct) (auto split: list.splits)

lemma split_on_nonempty: "split_on c s \<noteq> []"
  by (induction c s rule: split_on.induct) (auto split: list.splits)

lemma split_on_append_sep:
  "c \<notin> set x \<Longrightarrow> split_on c (x @ c # rest) = x # split_on c rest"
  by (induction x) (auto split: list.splits)

lemma split_on_sep_free_id: "c \<notin> set x \<Longrightarrow> split_on c x = [x]"
  by (induction x) (auto split: list.splits)

lemma split_on_join_sep:
  "segs_ok xs \<Longrightarrow> xs \<noteq> [] \<Longrightarrow> split_on CHR ''/'' (join_sep xs) = xs"
proof (induction xs rule: join_sep.induct)
  case 1
  then show ?case by simp
next
  case (2 x)
  then show ?case by (simp add: segs_ok_def split_on_sep_free_id)
next
  case (3 x y rest)
  then have "split_on CHR ''/'' (join_sep (y # rest)) = y # rest"
    by (simp add: segs_ok_def)
  moreover from 3 have "CHR ''/'' \<notin> set x" by (simp add: segs_ok_def)
  ultimately show ?case
    using split_on_append_sep [of "CHR ''/''" x "join_sep (y # rest)"] by simp
qed

lemma segments_abs_join: "segs_ok xs \<Longrightarrow> segments (CHR ''/'' # join_sep xs) = xs"
proof (cases "xs = []")
  case True
  then show ?thesis by (simp add: segments_def)
next
  case False
  assume "segs_ok xs"
  with False have "split_on CHR ''/'' (join_sep xs) = xs"
    by (rule split_on_join_sep [rotated])
  moreover from \<open>segs_ok xs\<close> have "filter (\<lambda>s. s \<noteq> []) xs = xs"
    by (auto simp: segs_ok_def intro: filter_True)
  ultimately show ?thesis
    by (simp add: segments_def)
qed

lemma normalize_segs_ok:
  "\<forall>x \<in> set segs. CHR ''/'' \<notin> set x \<Longrightarrow> segs_ok acc \<Longrightarrow> segs_ok (normalize_segs a segs acc)"
proof (induction segs arbitrary: acc)
  case Nil
  then show ?case by (simp add: segs_ok_def)
next
  case (Cons seg segs)
  from Cons.prems have rest: "\<forall>x \<in> set segs. CHR ''/'' \<notin> set x" and seg: "CHR ''/'' \<notin> set seg"
    by simp_all
  have dots: "segs_ok [''..'']"
    by (simp add: segs_ok_def)
  have tl_ok: "segs_ok (tl acc)"
    using Cons.prems(2) by (cases acc) (simp_all add: segs_ok_def)
  have up_ok: "segs_ok (''..'' # acc)"
    using Cons.prems(2) by (simp add: segs_ok_def)
  have nil_ok: "segs_ok []"
    by (simp add: segs_ok_def)
  consider (skip) "seg = [] \<or> seg = ''.''"
    | (up) "\<not> (seg = [] \<or> seg = ''.'')" "seg = ''..''"
    | (push) "\<not> (seg = [] \<or> seg = ''.'')" "seg \<noteq> ''..''"
    by blast
  then show ?case
  proof cases
    case skip
    then have "normalize_segs a (seg # segs) acc = normalize_segs a segs acc"
      by (simp only: normalize_segs.simps if_True)
    with Cons.IH [OF rest Cons.prems(2)] show ?thesis by simp
  next
    case up
    then have eq: "normalize_segs a (seg # segs) acc =
        (case acc of
           [] \<Rightarrow> normalize_segs a segs (if a then [''..''] else [])
         | prev # acc' \<Rightarrow>
             if prev \<noteq> ''..'' then normalize_segs a segs acc'
             else normalize_segs a segs (if a then ''..'' # acc else acc))"
      by (simp only: normalize_segs.simps if_True if_False simp_thms)
    show ?thesis
    proof (cases acc)
      case Nil
      with eq Cons.IH [OF rest dots] Cons.IH [OF rest nil_ok] show ?thesis
        by (cases a) simp_all
    next
      case (Cons prev acc')
      with eq tl_ok \<open>\<And>acc. \<lbrakk>\<forall>x\<in>set segs. CHR ''/'' \<notin> set x; segs_ok acc\<rbrakk> \<Longrightarrow> segs_ok (normalize_segs a segs acc)\<close> [OF rest]
        up_ok Cons.prems(2)
      show ?thesis
        by (cases a; cases "prev = ''..''") simp_all
    qed
  next
    case push
    then have "normalize_segs a (seg # segs) acc = normalize_segs a segs (seg # acc)"
      by (simp only: normalize_segs.simps if_False)
    moreover from push seg Cons.prems(2) have "segs_ok (seg # acc)"
      by (simp add: segs_ok_def)
    ultimately show ?thesis
      using Cons.IH [OF rest] by simp
  qed
qed

lemma resolve_form:
  "\<exists>xs. segs_ok xs \<and> resolve cwd p = CHR ''/'' # join_sep xs"
proof -
  let ?full = "if p = [] then cwd else if isAbsolute p then p else cwd @ ''/'' @ p"
  have "segs_ok (normalize_segs False (split_on CHR ''/'' ?full) [])"
    by (rule normalize_segs_ok) (simp_all add: split_on_sep_free segs_ok_def)
  then show ?thesis
    unfolding resolve_def Let_def by auto
qed

lemma canon_resolve: "canon (resolve cwd p) = resolve cwd p"
proof -
  obtain xs where "segs_ok xs" "resolve cwd p = CHR ''/'' # join_sep xs"
    using resolve_form by blast
  then show ?thesis
    by (simp add: canon_def segments_abs_join)
qed


lemma join_sep_snoc:
  "xs \<noteq> [] \<Longrightarrow> join_sep xs @ sfx = join_sep (butlast xs @ [last xs @ sfx])"
  by (induction xs rule: join_sep.induct) simp_all

lemma segs_ok_snoc:
  "segs_ok xs \<Longrightarrow> xs \<noteq> [] \<Longrightarrow> CHR ''/'' \<notin> set sfx \<Longrightarrow> segs_ok (butlast xs @ [last xs @ sfx])"
  by (auto simp: segs_ok_def dest: in_set_butlastD)

text \<open>The length of the canonical path of a list of segments.\<close>

lemma length_join_sep:
  "xs \<noteq> [] \<Longrightarrow> Suc (length (join_sep xs)) = sum_list (map (\<lambda>s. Suc (length s)) xs)"
  by (induction xs rule: join_sep.induct) simp_all

lemma to_hex_sep_free: "CHR ''/'' \<notin> set (to_hex rnd)"
proof -
  have digit: "hex_digit n \<noteq> CHR ''/''" if "0 \<le> n" "n < 16" for n
  proof -
    have "''0123456789abcdef'' ! nat n \<in> set ''0123456789abcdef''"
      by (rule nth_mem) (use that in simp)
    then show ?thesis
      unfolding hex_digit_def by auto
  qed
  have "hex_digit (uint b div 16) \<noteq> CHR ''/'' \<and> hex_digit (uint b mod 16) \<noteq> CHR ''/''" for b :: "8 word"
  proof -
    have bounds: "0 \<le> uint b \<and> uint b < 256"
      using uint_bounded [of b] by simp
    then have "0 \<le> uint b div 16" "uint b div 16 < 16" "0 \<le> uint b mod 16" "uint b mod 16 < 16"
      by presburger+
    then show ?thesis using digit by blast
  qed
  then have "CHR ''/'' \<notin> set (hex_byte (uint b))" for b :: "8 word"
    by (simp add: hex_byte_def) metis
  then show ?thesis
    by (simp add: to_hex_def)
qed


lemma tmp_name_form:
  assumes "segs_ok xs" "target = CHR ''/'' # join_sep xs"
  shows "\<exists>ys. segs_ok ys \<and> ys \<noteq> [] \<and> tmp_name target rnd = CHR ''/'' # join_sep ys
     \<and> butlast ys = butlast xs"
proof -
  let ?sfx = "''.'' @ to_hex rnd @ ''.tmp''"
  have sfx: "CHR ''/'' \<notin> set ?sfx" "?sfx \<noteq> []"
    using to_hex_sep_free by simp_all
  show ?thesis
  proof (cases "xs = []")
    case True
    with assms sfx show ?thesis
      by (intro exI [of _ "[?sfx]"]) (simp add: tmp_name_def segs_ok_def)
  next
    case False
    with assms sfx show ?thesis
      by (intro exI [of _ "butlast xs @ [last xs @ ?sfx]"])
        (simp add: tmp_name_def segs_ok_snoc join_sep_snoc [symmetric] del: append.simps)
  qed
qed


subsection \<open>Entries of the file system\<close>

lemma map_of_fs_put: "map_of (fs_put fs p n) k = (if k = p then Some n else map_of fs k)"
  by (induction fs p n rule: fs_put.induct) auto

lemma map_of_fs_remove: "map_of (fs_remove fs p) k = (if k = p then None else map_of fs k)"
  by (induction fs) (auto simp: fs_remove_def)

lemma fs_lookup_put:
  "p \<noteq> ''/'' \<Longrightarrow> fs_lookup (fs_put fs p n) k = (if k = p then Some n else fs_lookup fs k)"
  by (simp add: fs_lookup_def map_of_fs_put)

lemma fs_lookup_remove:
  "p \<noteq> ''/'' \<Longrightarrow> fs_lookup (fs_remove fs p) k = (if k = p then None else fs_lookup fs k)"
  by (simp add: fs_lookup_def map_of_fs_remove)

lemma walk_dirs_put:
  "length cur + sum_list (map (\<lambda>s. Suc (length s)) ss) < length k \<Longrightarrow>
   walk_dirs (fs_put fs k n) cur ss = walk_dirs fs cur ss"
proof (induction ss arbitrary: cur)
  case Nil
  then show ?case by simp
next
  case (Cons s ss)
  from Cons.prems have ne: "cur @ ''/'' @ s \<noteq> k"
    by auto
  from Cons.prems have "length (cur @ ''/'' @ s) + sum_list (map (\<lambda>s. Suc (length s)) ss) < length k"
    by simp
  from Cons.IH [OF this] ne show ?case
    by (simp add: map_of_fs_put split: option.splits node.splits)
qed

lemma mkdir_walk_keeps:
  "mkdir_walk fs cur ss = Inr fs' \<Longrightarrow>
   length cur + sum_list (map (\<lambda>s. Suc (length s)) ss) < length k \<Longrightarrow>
   map_of fs' k = map_of fs k"
proof (induction ss arbitrary: fs cur)
  case Nil
  then show ?case by simp
next
  case (Cons s ss)
  let ?nxt = "cur @ ''/'' @ s"
  from Cons.prems(2) have ne: "?nxt \<noteq> k"
    by auto
  from Cons.prems(2) have bound: "length ?nxt + sum_list (map (\<lambda>s. Suc (length s)) ss) < length k"
    by simp
  show ?case
  proof (cases "map_of fs ?nxt")
    case None
    with Cons.prems(1) have "mkdir_walk (fs @ [(?nxt, Dir)]) ?nxt ss = Inr fs'"
      by simp
    from Cons.IH [OF this bound] ne show ?thesis
      by (simp add: map_add_def split: option.splits)
  next
    case (Some nd)
    with Cons.prems(1) have "nd = Dir" and "mkdir_walk fs ?nxt ss = Inr fs'"
      by (cases nd; simp)+
    from Cons.IH [OF this(2) bound] show ?thesis .
  qed
qed

lemma sum_split_on: "sum_list (map (\<lambda>s. Suc (length s)) (split_on c s)) = Suc (length s)"
  by (induction c s rule: split_on.induct) (auto split: list.splits)

lemma sum_filter_le:
  "sum_list (map f (filter P xs)) \<le> sum_list (map f xs)" for f :: "'a \<Rightarrow> nat"
  by (induction xs) auto

lemma segments_length_abs:
  "isAbsolute p \<Longrightarrow> sum_list (map (\<lambda>s. Suc (length s)) (segments p)) \<le> length p"
proof -
  assume "isAbsolute p"
  then obtain s where p: "p = CHR ''/'' # s"
    by (cases p) (auto simp: isAbsolute_def)
  have "segments p = filter (\<lambda>s. s \<noteq> []) (split_on CHR ''/'' s)"
    by (simp add: p segments_def)
  then have "sum_list (map (\<lambda>s. Suc (length s)) (segments p))
      \<le> sum_list (map (\<lambda>s. Suc (length s)) (split_on CHR ''/'' s))"
    by (simp add: sum_filter_le)
  then show ?thesis
    by (simp add: sum_split_on p)
qed

lemma dropWhile_shorter:
  "dropWhile P xs \<noteq> xs \<Longrightarrow> length (dropWhile P xs) < length xs"
  by (induction xs) (auto simp: less_Suc_eq_le length_dropWhile_le split: if_splits)

lemma dirname_abs:
  assumes "isAbsolute t"
  shows "dirname t = ''/'' \<or> (isAbsolute (dirname t) \<and> length (dirname t) < length t)"
proof -
  define r0 where "r0 = dropWhile (\<lambda>c. c = CHR ''/'') (rev (tl t))"
  define r where "r = dropWhile (\<lambda>c. c \<noteq> CHR ''/'') r0"
  from assms obtain s where t: "t = CHR ''/'' # s"
    by (cases t) (auto simp: isAbsolute_def)
  have "t \<noteq> []"
    by (simp add: t)
  then have "dirname t = (if r = [] then (if isAbsolute t then ''/'' else ''.'')
      else if isAbsolute t \<and> length r = 1 then ''//'' else hd t # rev (tl r))"
    unfolding dirname_def Let_def r_def r0_def by (simp only: if_False)
  with assms have d: "dirname t = (if r = [] then ''/'' else if length r = 1 then ''//'' else CHR ''/'' # rev (tl r))"
    by (simp only: simp_thms if_True t list.sel)
  show ?thesis
  proof (cases "r = []")
    case True
    with d show ?thesis by simp
  next
    case False
    have le0: "length r0 \<le> length s"
      unfolding r0_def using length_dropWhile_le [of _ "rev (tl t)"] by (simp add: t)
    have "r \<noteq> r0"
    proof
      assume eq: "r = r0"
      from False have "hd r = CHR ''/''"
        unfolding r_def using hd_dropWhile [of "\<lambda>c. c \<noteq> CHR ''/''" r0] by blast
      moreover from False eq have "r0 \<noteq> []" by simp
      then have "hd r0 \<noteq> CHR ''/''"
        unfolding r0_def using hd_dropWhile [of "\<lambda>c. c = CHR ''/''" "rev (tl t)"] by blast
      ultimately show False using eq by simp
    qed
    then have "length r < length r0"
      unfolding r_def by (rule dropWhile_shorter)
    with le0 have len: "Suc (length r) < length t"
      by (simp add: t)
    from False have r1: "length (tl r) = length r - 1" by simp
    show ?thesis
    proof (cases "length r = 1")
      case True
      with False len show ?thesis
        by (simp add: d isAbsolute_def)
    next
      case ne1: False
      from False ne1 len show ?thesis
        by (simp add: d isAbsolute_def)
    qed
  qed
qed

lemma canon_abs_join: "segs_ok xs \<Longrightarrow> canon (CHR ''/'' # join_sep xs) = CHR ''/'' # join_sep xs"
  by (simp add: canon_def segments_abs_join)

lemma length_abs_join:
  "xs \<noteq> [] \<Longrightarrow> length (CHR ''/'' # join_sep xs) = sum_list (map (\<lambda>s. Suc (length s)) xs)"
  using length_join_sep [of xs] by simp

lemma sum_butlast_less:
  "xs \<noteq> [] \<Longrightarrow> sum_list (map (\<lambda>s. Suc (length s)) (butlast xs)) < sum_list (map (\<lambda>s. Suc (length s)) xs)"
  by (induction xs) auto

lemma parent_error_put:
  assumes "segs_ok xs"
  shows "parent_error (fs_put fs (CHR ''/'' # join_sep xs) n) (CHR ''/'' # join_sep xs)
       = parent_error fs (CHR ''/'' # join_sep xs)"
proof (cases "xs = []")
  case True
  then show ?thesis
    by (simp add: parent_error_def segments_def)
next
  case False
  have "length ([] :: string) + sum_list (map (\<lambda>s. Suc (length s)) (butlast xs))
      < length (CHR ''/'' # join_sep xs)"
    using sum_butlast_less [OF False] length_abs_join [OF False] by simp
  from walk_dirs_put [OF this] show ?thesis
    by (simp add: parent_error_def segments_abs_join [OF assms])
qed

lemma writeFile_result:
  "writeFile fs p c = Inr fs' \<Longrightarrow> canon p \<noteq> ''/'' \<and> fs' = fs_put fs (canon p) (File c)"
  by (auto simp: writeFile_def fs_lookup_def split: option.splits node.splits if_splits)

lemma unlink_result:
  "unlink fs p = Inr fs' \<Longrightarrow> canon p \<noteq> ''/'' \<and> fs' = fs_remove fs (canon p)"
  by (auto simp: unlink_def lstat_def fs_lookup_def split: option.splits node.splits sum.splits if_splits)

lemma rename_result:
  "rename fs src dst = Inr fs' \<Longrightarrow>
     canon dst \<noteq> ''/'' \<and> canon src \<noteq> ''/'' \<and>
     (fs' = fs \<and> canon src = canon dst
      \<or> (\<exists>n. lstat fs src = Inr n \<and> fs' = fs_put (fs_remove fs (canon src)) (canon dst) n))"
  by (auto simp: rename_def lstat_def fs_lookup_def split: option.splits node.splits sum.splits if_splits)

lemma lstat_after_writeFile:
  assumes "segs_ok xs" and "writeFile fs (CHR ''/'' # join_sep xs) c = Inr fs'"
  shows "lstat fs' (CHR ''/'' # join_sep xs) = Inr (File c)"
proof -
  let ?p = "CHR ''/'' # join_sep xs"
  have canon: "canon ?p = ?p"
    using assms(1) by (rule canon_abs_join)
  from writeFile_result [OF assms(2)] canon have ne: "?p \<noteq> ''/''" and fs': "fs' = fs_put fs ?p (File c)"
    by simp_all
  from assms(2) have "parent_error fs ?p = None"
    by (auto simp: writeFile_def split: option.splits)
  then have "parent_error fs' ?p = None"
    unfolding fs' by (simp add: parent_error_put [OF assms(1)])
  then show ?thesis
    using ne by (simp add: lstat_def canon fs' fs_lookup_put)
qed

lemma mkdir_recursive_keeps:
  assumes "mkdir_recursive fs d = Inr fs1" and "isAbsolute d" and "length d < length k"
  shows "fs_lookup fs1 k = fs_lookup fs k"
proof -
  have "length ([] :: string) + sum_list (map (\<lambda>s. Suc (length s)) (segments d)) < length k"
    using segments_length_abs [OF assms(2)] assms(3) by simp
  from mkdir_walk_keeps [OF assms(1) [unfolded mkdir_recursive_def] this] show ?thesis
    by (simp add: fs_lookup_def)
qed

lemma mkdir_root: "mkdir_recursive fs ''/'' = Inr fs"
  by (simp add: mkdir_recursive_def segments_def)

lemma mkdir_dirname_keeps:
  assumes "mkdir_recursive fs (dirname t) = Inr fs1" and "isAbsolute t" and "length t \<le> length k"
  shows "fs_lookup fs1 k = fs_lookup fs k"
proof -
  from dirname_abs [OF assms(2)] show ?thesis
  proof
    assume "dirname t = ''/''"
    with assms(1) show ?thesis by (simp add: mkdir_root)
  next
    assume "isAbsolute (dirname t) \<and> length (dirname t) < length t"
    with assms(3) mkdir_recursive_keeps [OF assms(1), of k] show ?thesis by simp
  qed
qed


subsection \<open>Resolving a resolved path\<close>

lemma normalize_segs_plain:
  "\<forall>x \<in> set xs. x \<noteq> [] \<and> x \<noteq> ''.'' \<and> x \<noteq> ''..'' \<Longrightarrow> normalize_segs a xs acc = rev acc @ xs"
  by (induction xs arbitrary: acc) simp_all

lemma normalize_segs_False_pushed:
  assumes P: "\<And>x. \<not> (x = [] \<or> x = ''.'') \<Longrightarrow> x \<noteq> ''..'' \<Longrightarrow> P x"
  shows "list_all P acc \<Longrightarrow> list_all P (normalize_segs False segs acc)"
proof (induction segs arbitrary: acc)
  case Nil
  then show ?case by simp
next
  case (Cons seg segs)
  have tl_ok: "list_all P (tl acc)"
    using Cons.prems by (cases acc) simp_all
  consider (skip) "seg = [] \<or> seg = ''.''"
    | (up) "\<not> (seg = [] \<or> seg = ''.'')" "seg = ''..''"
    | (push) "\<not> (seg = [] \<or> seg = ''.'')" "seg \<noteq> ''..''"
    by blast
  then show ?case
  proof cases
    case skip
    then have "normalize_segs False (seg # segs) acc = normalize_segs False segs acc"
      by (simp only: normalize_segs.simps if_True)
    with Cons.IH [OF Cons.prems] show ?thesis by (simp only:)
  next
    case up
    then have eq: "normalize_segs False (seg # segs) acc =
        (case acc of
           [] \<Rightarrow> normalize_segs False segs []
         | prev # acc' \<Rightarrow>
             if prev \<noteq> ''..'' then normalize_segs False segs acc'
             else normalize_segs False segs acc)"
      by (simp only: normalize_segs.simps if_True if_False simp_thms)
    show ?thesis
    proof (cases acc)
      case Nil
      have "list_all P (normalize_segs False segs [])"
        by (rule Cons.IH) simp
      with eq Nil show ?thesis by (simp only: list.case)
    next
      case (Cons prev acc')
      have a: "list_all P (normalize_segs False segs acc')"
        using tl_ok Cons by (intro Cons.IH) simp
      have b: "list_all P (normalize_segs False segs acc)"
        using Cons.prems by (rule Cons.IH)
      show ?thesis
      proof (cases "prev = ''..''")
        case True
        with eq Cons b show ?thesis by (simp only: list.case simp_thms if_False)
      next
        case False
        with eq Cons a show ?thesis by (simp only: list.case simp_thms if_True)
      qed
    qed
  next
    case push
    then have "normalize_segs False (seg # segs) acc = normalize_segs False segs (seg # acc)"
      by (simp only: normalize_segs.simps if_False)
    moreover from push Cons.prems P have "list_all P (seg # acc)"
      by simp
    ultimately show ?thesis
      using Cons.IH by (simp only:)
  qed
qed

lemma resolve_idem: "resolve cwd (resolve cwd p) = resolve cwd p"
proof -
  let ?full = "if p = [] then cwd else if isAbsolute p then p else cwd @ ''/'' @ p"
  define xs where "xs = normalize_segs False (split_on CHR ''/'' ?full) []"
  have q: "resolve cwd p = CHR ''/'' # join_sep xs"
    by (simp add: resolve_def xs_def Let_def)
  have ok: "segs_ok xs"
    unfolding xs_def by (rule normalize_segs_ok) (simp_all add: split_on_sep_free segs_ok_def)
  have "list_all (\<lambda>x. x \<noteq> [] \<and> x \<noteq> ''.'' \<and> x \<noteq> ''..'') xs"
    unfolding xs_def by (rule normalize_segs_False_pushed) simp_all
  then have plain: "\<forall>x \<in> set xs. x \<noteq> [] \<and> x \<noteq> ''.'' \<and> x \<noteq> ''..''"
    by (simp only: list_all_iff)
  have split: "split_on CHR ''/'' (CHR ''/'' # join_sep xs) = [] # split_on CHR ''/'' (join_sep xs)"
    by simp
  have norm: "normalize_segs False ([] # ys) [] = normalize_segs False ys []" for ys
    by simp
  have "normalize_segs False (split_on CHR ''/'' (join_sep xs)) [] = xs"
  proof (cases "xs = []")
    case True
    then show ?thesis by simp
  next
    case False
    with ok have "split_on CHR ''/'' (join_sep xs) = xs"
      by (simp add: split_on_join_sep)
    then show ?thesis
      using normalize_segs_plain [OF plain, of False "[]"] by simp
  qed
  then have "normalize_segs False (split_on CHR ''/'' (CHR ''/'' # join_sep xs)) [] = xs"
    by (simp only: split norm)
  moreover have "resolve cwd (CHR ''/'' # join_sep xs)
      = CHR ''/'' # join_sep (normalize_segs False (split_on CHR ''/'' (CHR ''/'' # join_sep xs)) [])"
    unfolding resolve_def Let_def isAbsolute_def by (simp only: list.distinct list.sel if_False if_True simp_thms append.simps)
  ultimately show ?thesis
    by (simp only: q)
qed

lemma isContained_resolve: "isContained cwd (resolve cwd p) root = isContained cwd p root"
  by (simp add: isContained_def resolve_idem)


subsection \<open>writeAtomic\<close>

lemma unlink_file:
  "lstat fs p = Inr (File c) \<Longrightarrow> unlink fs p = Inr (fs_remove fs (canon p))"
  by (simp add: unlink_def)

lemma writeAtomic_cases:
  assumes run: "fsSafe_writeAtomic cwd rnd filePath data root fs = (r, fs')"
  defines "target \<equiv> resolve cwd filePath"
  defines "tmp \<equiv> tmp_name (resolve cwd filePath) rnd"
  shows "(r = Inr () \<longrightarrow> fs_lookup fs' target = Some (File data) \<and> fs_lookup fs' tmp = None)
       \<and> (r \<noteq> Inr () \<longrightarrow> fs_lookup fs' target = fs_lookup fs target
            \<and> (fs_lookup fs' tmp = None \<or> fs_lookup fs' tmp = fs_lookup fs tmp))
       \<and> (\<forall>fs1 fs2. isContained cwd target root \<longrightarrow> validateParentChain cwd filePath root fs = None \<longrightarrow>
            mkdir_recursive fs (dirname target) = Inr fs1 \<longrightarrow> writeFile fs1 tmp data = Inr fs2 \<longrightarrow>
            r \<noteq> Inr () \<longrightarrow>
            fs_lookup fs' tmp = None \<and> (\<exists>e. rename fs2 tmp target = Inl e \<and> r = Inl (SysError e)))"
proof -
  obtain xs where xs: "segs_ok xs" "target = CHR ''/'' # join_sep xs"
    unfolding target_def using resolve_form by blast
  obtain ys where ys: "segs_ok ys" "tmp = CHR ''/'' # join_sep ys"
    unfolding tmp_def using tmp_name_form [OF xs [unfolded target_def]] by blast
  have abs: "isAbsolute target"
    by (simp add: xs isAbsolute_def)
  have ctarget: "canon target = target"
    unfolding xs using xs(1) by (rule canon_abs_join)
  have ctmp: "canon tmp = tmp"
    unfolding ys using ys(1) by (rule canon_abs_join)
  have len: "length target < length tmp"
    by (simp add: tmp_def target_def tmp_name_def)
  then have ne: "tmp \<noteq> target" "target \<noteq> tmp"
    by auto
  from len xs have tmp_root: "tmp \<noteq> ''/''"
    by auto
  show ?thesis
  proof (cases "\<not> isContained cwd target root \<or> validateParentChain cwd filePath root fs \<noteq> None
      \<or> (\<exists>e. mkdir_recursive fs (dirname target) = Inl e)")
    case True
    with run have "fs' = fs" and "r \<noteq> Inr ()"
      unfolding fsSafe_writeAtomic_def Let_def target_def [symmetric]
      by (auto split: option.splits sum.splits if_splits)
    with True show ?thesis by auto
  next
    case False
    then obtain fs1 where contained: "isContained cwd target root"
      and chain: "validateParentChain cwd filePath root fs = None"
      and mk: "mkdir_recursive fs (dirname target) = Inr fs1"
      by (cases "mkdir_recursive fs (dirname target)") auto
    have keep_target: "fs_lookup fs1 target = fs_lookup fs target"
      using mkdir_dirname_keeps [OF mk abs] by simp
    have keep_tmp: "fs_lookup fs1 tmp = fs_lookup fs tmp"
      using mkdir_dirname_keeps [OF mk abs, of tmp] len by simp
    have tmp_eq: "tmp_name target rnd = tmp"
      by (simp add: tmp_def target_def)
    have body: "(r, fs') =
        (case (case writeFile fs1 tmp data of
                 Inl e \<Rightarrow> Inl (e, fs1)
               | Inr fs2 \<Rightarrow>
                   (case rename fs2 tmp target of
                      Inl e \<Rightarrow> Inl (e, fs2)
                    | Inr fs3 \<Rightarrow> Inr fs3)) of
           Inr fs3 \<Rightarrow> (Inr (), fs3)
         | Inl (e, fs') \<Rightarrow>
             (case unlink fs' tmp of
                Inl e' \<Rightarrow> (Inl (SysError e), fs')
              | Inr fs'' \<Rightarrow> (Inl (SysError e), fs'')))"
      using run contained chain mk
      unfolding fsSafe_writeAtomic_def Let_def target_def [symmetric] tmp_eq
      by simp
    show ?thesis
    proof (cases "writeFile fs1 tmp data")
      case (Inl e)
      show ?thesis
      proof (cases "unlink fs1 tmp")
        case (Inl e')
        with body \<open>writeFile fs1 tmp data = Inl e\<close> have "r = Inl (SysError e)" "fs' = fs1"
          by simp_all
        with keep_target keep_tmp mk \<open>writeFile fs1 tmp data = Inl e\<close> show ?thesis by simp
      next
        case (Inr fs2)
        with body \<open>writeFile fs1 tmp data = Inl e\<close> have "r = Inl (SysError e)" "fs' = fs2"
          by simp_all
        moreover from unlink_result [OF Inr] ctmp have "fs2 = fs_remove fs1 tmp"
          by simp
        ultimately show ?thesis
          using keep_target ne tmp_root mk \<open>writeFile fs1 tmp data = Inl e\<close>
          by (simp add: fs_lookup_remove)
      qed
    next
      case (Inr fs2)
      from writeFile_result [OF Inr] ctmp have fs2: "fs2 = fs_put fs1 tmp (File data)"
        by simp
      have st: "lstat fs2 tmp = Inr (File data)"
        using lstat_after_writeFile [OF ys(1) Inr [unfolded ys(2)]] by (simp add: ys(2))
      have t2: "fs_lookup fs2 target = fs_lookup fs target"
        using keep_target ne tmp_root by (simp add: fs2 fs_lookup_put)
      show ?thesis
      proof (cases "rename fs2 tmp target")
        case (Inl e)
        with body Inr unlink_file [OF st] ctmp have "r = Inl (SysError e)" "fs' = fs_remove fs2 tmp"
          by simp_all
        with t2 ne tmp_root mk \<open>writeFile fs1 tmp data = Inr fs2\<close> Inl show ?thesis
          by (simp add: fs_lookup_remove)
      next
        case (Inr fs3)
        with body \<open>writeFile fs1 tmp data = Inr fs2\<close> have res: "r = Inr ()" "fs' = fs3"
          by simp_all
        from rename_result [OF Inr] ctmp ctarget ne st
        have "target \<noteq> ''/''" and "fs3 = fs_put (fs_remove fs2 tmp) target (File data)"
          by auto
        with res ne tmp_root show ?thesis
          by (simp add: fs_lookup_put fs_lookup_remove)
      qed
    qed
  qed
qed




subsection \<open>capOutput\<close>

lemma byteLength_replicate_ascii:
  "(of_char c :: nat) < 128 \<Longrightarrow> byteLength (replicate n c) = n"
  by (induction n) (simp_all add: byteLength_def)

lemma mkdir_escapes:
  "\<not> isContained cwd (resolve cwd dirPath) root \<Longrightarrow> fsSafe_mkdir cwd dirPath root fs = Inl (escapes dirPath root)"
  by (simp add: fsSafe_mkdir_def)

text \<open>
  C3. An output of at most 10240 bytes comes back whole, not truncated, with no log
  file and the file system untouched. An output over the cap never reaches the log
  file when the root is not inside the log directory (as for every log directory
  below the root): \<open>capOutput\<close> passes the root where \<open>fsSafe.mkdir\<close> takes the path and
  the log directory where it takes the root, so it throws a \<open>PathEscapeError\<close> before
  anything is written.
\<close>

theorem capOutput_cap:
  "(\<exists>sr. scanString output = Some sr)
   \<and> (scanString output = Some sr \<longrightarrow> byteLength output \<le> MAX_OUTPUT_BYTES \<longrightarrow>
        capOutput cwd rnd output logDir tid i strm root fs =
          Some (Inr \<lparr>content = output, truncated = False, fullLogPath = None,
                      secretsDetected = hasSecrets sr, secretCount = length (matches sr)\<rparr>, fs))
   \<and> (MAX_OUTPUT_BYTES < byteLength output \<longrightarrow> \<not> isContained cwd root logDir \<longrightarrow>
        capOutput cwd rnd output logDir tid i strm root fs = Some (Inl (escapes root logDir), fs))"
proof -
  obtain sr' where sr': "scanString output = Some sr'"
    using scanString_returns by blast
  then show ?thesis
    by (auto simp: capOutput_def Let_def mkdir_escapes isContained_resolve)
qed

theorem capOutput_cap_witness:
  "scanString ''ok'' = Some \<lparr>matches = [], hasSecrets = False\<rparr>
   \<and> byteLength ''ok'' \<le> MAX_OUTPUT_BYTES
   \<and> capOutput ''/w'' [1, 2, 3, 4, 5, 6, 7, 8] ''ok'' ''/repo/.ai-handoff/logs''
         ''t1'' 0 Stdout ''/repo'' [(''/repo'', Dir)] =
       Some (Inr \<lparr>content = ''ok'', truncated = False, fullLogPath = None,
                   secretsDetected = False, secretCount = 0\<rparr>, [(''/repo'', Dir)])
   \<and> MAX_OUTPUT_BYTES < byteLength (replicate 10241 CHR ''a'')
   \<and> \<not> isContained ''/w'' ''/repo'' ''/repo/.ai-handoff/logs''
   \<and> capOutput ''/w'' [1, 2, 3, 4, 5, 6, 7, 8] (replicate 10241 CHR ''a'') ''/repo/.ai-handoff/logs''
         ''t1'' 0 Stdout ''/repo'' [(''/repo'', Dir)] =
       Some (Inl (PathEscapeError ''Path /repo escapes root /repo/.ai-handoff/logs''), [(''/repo'', Dir)])"
proof -
  have scan: "scanString ''ok'' = Some \<lparr>matches = [], hasSecrets = False\<rparr>"
    by code_simp
  have small: "byteLength ''ok'' \<le> MAX_OUTPUT_BYTES"
    by code_simp
  have large: "MAX_OUTPUT_BYTES < byteLength (replicate 10241 CHR ''a'')"
    by (simp add: byteLength_replicate_ascii MAX_OUTPUT_BYTES_def)
  have out: "\<not> isContained ''/w'' ''/repo'' ''/repo/.ai-handoff/logs''"
    by code_simp
  have msg: "escapes ''/repo'' ''/repo/.ai-handoff/logs''
      = PathEscapeError ''Path /repo escapes root /repo/.ai-handoff/logs''"
    by (simp add: escapes_def)
  note under = capOutput_cap [of "''ok''" "\<lparr>matches = [], hasSecrets = False\<rparr>" "''/w''"
      "[1, 2, 3, 4, 5, 6, 7, 8]" "''/repo/.ai-handoff/logs''" "''t1''" 0 Stdout "''/repo''"
      "[(''/repo'', Dir)]", THEN conjunct2, THEN conjunct1, THEN mp, OF scan, THEN mp, OF small]
  note over = capOutput_cap [of "replicate 10241 CHR ''a''" "\<lparr>matches = [], hasSecrets = False\<rparr>"
      "''/w''" "[1, 2, 3, 4, 5, 6, 7, 8]" "''/repo/.ai-handoff/logs''" "''t1''" 0 Stdout "''/repo''"
      "[(''/repo'', Dir)]", THEN conjunct2, THEN conjunct2, THEN mp, OF large, THEN mp, OF out]
  from under over scan small large out msg show ?thesis
    by simp
qed

subsection \<open>Loading and sorting the tasks\<close>

lemma insert_by_insort:
  assumes "created_time h x \<noteq> None" and "\<forall>y \<in> set ys. created_time h y \<noteq> None"
  shows "insert_by (compare_created h) x ys = insort_key (ctime h) x ys"
  using assms by (induction ys) (auto simp: compare_created_def ctime_def)

lemma array_sort_sort_key:
  "\<forall>t \<in> set xs. created_time h t \<noteq> None \<Longrightarrow> array_sort (compare_created h) xs = sort_key (ctime h) xs"
proof (induction xs)
  case Nil
  then show ?case by (simp add: array_sort_def)
next
  case (Cons x xs)
  then have IH: "foldr (insert_by (compare_created h)) xs [] = sort_key (ctime h) xs"
    by (simp add: array_sort_def)
  from Cons.prems have "\<forall>y \<in> set (sort_key (ctime h) xs). created_time h y \<noteq> None"
    by simp
  with Cons.prems show ?case
    by (simp add: array_sort_def IH insert_by_insort sort_key_def)
qed

lemma loadTasks_loop_loadable:
  "loadTasks_loop h dir root fs files tasks = tasks @ loadable h dir root fs files"
  by (induction files arbitrary: tasks) (auto simp: loadable_def split: sum.splits)






lemma loadTasks_result:
  "fsSafe_readdir (proc_cwd h) dir root fs = Inr files \<Longrightarrow>
   loadTasks h dir root fs =
     Inr (array_sort (compare_created h) (loadable h dir root fs (filter (\<lambda>f. endsWith f ''.json'') files)))"
  by (simp add: loadTasks_def loadTasks_loop_loadable)


subsection \<open>The worker lock\<close>

text \<open>
  C6, as the code has it. For a lock file that is present and readable,
  \<open>WatcherLoop.acquireWorkerLock\<close> decides by the age of the lock, not by its host and
  process: unless the text parses and records a time more than five minutes back, the
  result is \<open>false\<close> (busy) and nothing is changed; otherwise the lock file is removed,
  and when the new lock is written the result is \<open>true\<close> and the lock file holds the new
  record.
\<close>

theorem acquireWorkerLock_by_age:
  assumes "fsSafe_exists (proc_cwd h) (worker_lock_path repo) repo fs = Inr True"
    and "fsSafe_read (proc_cwd h) (worker_lock_path repo) repo fs = Inr txt"
  shows "(\<not> lock_stale h now txt \<longrightarrow> WatcherLoop_acquireWorkerLock h now rnd repo fs = (False, fs))
     \<and> (lock_stale h now txt \<longrightarrow>
          fsSafe_unlink (proc_cwd h) (worker_lock_path repo) repo fs = Inr fs1 \<longrightarrow>
          fsSafe_writeAtomic (proc_cwd h) rnd (worker_lock_path repo) (lock_text h now) repo fs1
            = (Inr (), fs2) \<longrightarrow>
          WatcherLoop_acquireWorkerLock h now rnd repo fs = (True, fs2)
          \<and> fs_lookup fs1 (resolve (proc_cwd h) (worker_lock_path repo)) = None
          \<and> fs_lookup fs2 (resolve (proc_cwd h) (worker_lock_path repo)) = Some (File (lock_text h now)))"
proof (intro conjI impI)
  assume "\<not> lock_stale h now txt"
  with assms show "WatcherLoop_acquireWorkerLock h now rnd repo fs = (False, fs)"
    by (auto simp: WatcherLoop_acquireWorkerLock_def lock_stale_def Let_def
        split: sum.splits option.splits)
next
  assume stale: "lock_stale h now txt"
    and un: "fsSafe_unlink (proc_cwd h) (worker_lock_path repo) repo fs = Inr fs1"
    and wr: "fsSafe_writeAtomic (proc_cwd h) rnd (worker_lock_path repo) (lock_text h now) repo fs1
      = (Inr (), fs2)"
  from stale assms un wr show "WatcherLoop_acquireWorkerLock h now rnd repo fs = (True, fs2)"
    by (auto simp: WatcherLoop_acquireWorkerLock_def write_worker_lock_def lock_stale_def Let_def
        split: sum.splits option.splits)
  from un have "unlink fs (resolve (proc_cwd h) (worker_lock_path repo)) = Inr fs1"
    by (auto simp: fsSafe_unlink_def Let_def split: if_splits option.splits sum.splits)
  from unlink_result [OF this] show "fs_lookup fs1 (resolve (proc_cwd h) (worker_lock_path repo)) = None"
    by (simp add: canon_resolve fs_lookup_remove)
  from writeAtomic_cases [OF wr]
  show "fs_lookup fs2 (resolve (proc_cwd h) (worker_lock_path repo)) = Some (File (lock_text h now))"
    by simp
qed

text \<open>
  The standalone helper of the locking module passes the root where \<open>fsSafe.exists\<close>
  takes the path. When the root is not inside the lock path (as for every lock
  directory below the root) it throws at that first call, before it reads the lock.
\<close>

lemma locks_acquireWorkerLock_escapes:
  "\<not> isContained (proc_cwd h) root (path_join [lockDir, WORKER_LOCK_FILE]) \<Longrightarrow>
   locks_acquireWorkerLock h kill_ok now rnd lockDir root fs
     = (Inl (escapes root (path_join [lockDir, WORKER_LOCK_FILE])), fs)"
  by (simp add: locks_acquireWorkerLock_def fsSafe_exists_def Let_def isContained_resolve)

lemma locks_acquireWorkerLock_example:
  "locks_acquireWorkerLock example_host (\<lambda>pid. False) 301001 [1, 2, 3, 4, 5, 6, 7, 8]
     ''/repo/.ai-handoff/locks'' ''/repo''
     (example_dirs @ [(''/repo/.ai-handoff/locks/__worker__.lock'', File ''L'')])
   = (Inl (PathEscapeError ''Path /repo escapes root /repo/.ai-handoff/locks/__worker__.lock''),
      example_dirs @ [(''/repo/.ai-handoff/locks/__worker__.lock'', File ''L'')])"
  by code_simp

theorem acquireWorkerLock_by_age_witness:
  "fsSafe_exists ''/w'' ''/repo/.ai-handoff/locks/__worker__.lock'' ''/repo''
     (example_dirs @ [(''/repo/.ai-handoff/locks/__worker__.lock'', File ''L'')]) = Inr True
   \<and> fsSafe_read ''/w'' ''/repo/.ai-handoff/locks/__worker__.lock'' ''/repo''
     (example_dirs @ [(''/repo/.ai-handoff/locks/__worker__.lock'', File ''L'')]) = Inr ''L''
   \<and> \<not> lock_stale example_host 301000 ''L''
   \<and> WatcherLoop_acquireWorkerLock example_host 301000 [1, 2, 3, 4, 5, 6, 7, 8] ''/repo''
       (example_dirs @ [(''/repo/.ai-handoff/locks/__worker__.lock'', File ''L'')])
     = (False, example_dirs @ [(''/repo/.ai-handoff/locks/__worker__.lock'', File ''L'')])
   \<and> lock_stale example_host 301001 ''L''
   \<and> WatcherLoop_acquireWorkerLock example_host 301001 [1, 2, 3, 4, 5, 6, 7, 8] ''/repo''
       (example_dirs @ [(''/repo/.ai-handoff/locks/__worker__.lock'', File ''L'')])
     = (True, example_dirs @ [(''/repo/.ai-handoff/locks/__worker__.lock'', File ''J'')])"
proof -
  let ?lock = "''/repo/.ai-handoff/locks/__worker__.lock''"
  let ?fs = "example_dirs @ [(?lock, File ''L'')]"
  have path: "worker_lock_path ''/repo'' = ?lock" and cwd: "proc_cwd example_host = ''/w''"
    by code_simp+
  have present: "fsSafe_exists (proc_cwd example_host) (worker_lock_path ''/repo'') ''/repo'' ?fs = Inr True"
    by code_simp
  have readable: "fsSafe_read (proc_cwd example_host) (worker_lock_path ''/repo'') ''/repo'' ?fs = Inr ''L''"
    by code_simp
  have fresh: "\<not> lock_stale example_host 301000 ''L''" and stale: "lock_stale example_host 301001 ''L''"
    by code_simp+
  have un: "fsSafe_unlink (proc_cwd example_host) (worker_lock_path ''/repo'') ''/repo'' ?fs = Inr example_dirs"
    by code_simp
  have wr: "fsSafe_writeAtomic (proc_cwd example_host) [1, 2, 3, 4, 5, 6, 7, 8] (worker_lock_path ''/repo'')
      (lock_text example_host 301001) ''/repo'' example_dirs = (Inr (), example_dirs @ [(?lock, File ''J'')])"
    by code_simp
  note by_age = acquireWorkerLock_by_age [OF present readable]
  from by_age [of 301000, THEN conjunct1, THEN mp, OF fresh]
    by_age [of 301001, THEN conjunct2, THEN mp, OF stale, THEN mp, OF un, THEN mp, OF wr]
    present readable fresh stale
  show ?thesis
    by (simp add: path cwd)
qed

text \<open>
  C6, as stated, fails. The lock of the example was recorded on this host by process
  4242. While that process is alive, the lock is removed and acquired once it is older
  than five minutes; and when no process is alive, the lock still makes the result
  \<open>false\<close> while it is younger.
\<close>

theorem acquireWorkerLock_counterexample:
  "JSON_parse example_host ''L'' = Inr example_lock
   \<and> lock_holder_alive example_host (\<lambda>p. p = 4242) example_lock
   \<and> WatcherLoop_acquireWorkerLock example_host 301001 [1, 2, 3, 4, 5, 6, 7, 8] ''/repo''
       (example_dirs @ [(''/repo/.ai-handoff/locks/__worker__.lock'', File ''L'')])
     = (True, example_dirs @ [(''/repo/.ai-handoff/locks/__worker__.lock'', File ''J'')])
   \<and> \<not> lock_holder_alive example_host (\<lambda>p. False) example_lock
   \<and> WatcherLoop_acquireWorkerLock example_host 301000 [1, 2, 3, 4, 5, 6, 7, 8] ''/repo''
       (example_dirs @ [(''/repo/.ai-handoff/locks/__worker__.lock'', File ''L'')])
     = (False, example_dirs @ [(''/repo/.ai-handoff/locks/__worker__.lock'', File ''L'')])"
  by code_simp


subsection \<open>The order of the tasks\<close>

text \<open>
  C7, as the code has it. When the creation dates of the tasks that load are valid,
  \<open>loadTasks\<close> returns these tasks sorted by creation time, oldest first, and tasks of
  the same creation time keep the order in which the directory lists their files. The
  code reads no priority and does not compare ids.
\<close>

theorem loadTasks_by_created:
  assumes "fsSafe_readdir (proc_cwd h) dir root fs = Inr files"
    and "\<forall>t \<in> set (loadable h dir root fs (filter (\<lambda>f. endsWith f ''.json'') files)).
           created_time h t \<noteq> None"
  shows "\<exists>tasks. loadTasks h dir root fs = Inr tasks
     \<and> tasks = sort_key (ctime h) (loadable h dir root fs (filter (\<lambda>f. endsWith f ''.json'') files))
     \<and> sorted (map (ctime h) tasks)
     \<and> set tasks = set (loadable h dir root fs (filter (\<lambda>f. endsWith f ''.json'') files))
     \<and> length tasks = length (loadable h dir root fs (filter (\<lambda>f. endsWith f ''.json'') files))
     \<and> (\<forall>k. filter (\<lambda>t. ctime h t = k) tasks
            = filter (\<lambda>t. ctime h t = k)
                (loadable h dir root fs (filter (\<lambda>f. endsWith f ''.json'') files)))"
proof -
  let ?loaded = "loadable h dir root fs (filter (\<lambda>f. endsWith f ''.json'') files)"
  have "loadTasks h dir root fs = Inr (sort_key (ctime h) ?loaded)"
    using loadTasks_result [OF assms(1)] array_sort_sort_key [OF assms(2)] by simp
  then show ?thesis
    by (simp add: sort_key_stable)
qed

theorem loadTasks_by_created_witness:
  "fsSafe_readdir ''/w'' ''/repo/.ai-handoff/tasks'' ''/repo''
     (example_dirs @ [(''/repo/.ai-handoff/tasks/b.json'', File ''B''),
        (''/repo/.ai-handoff/tasks/c.json'', File ''C''), (''/repo/.ai-handoff/tasks/a.json'', File ''A'')])
     = Inr [''b.json'', ''c.json'', ''a.json'']
   \<and> loadTasks example_host ''/repo/.ai-handoff/tasks'' ''/repo''
     (example_dirs @ [(''/repo/.ai-handoff/tasks/b.json'', File ''B''),
        (''/repo/.ai-handoff/tasks/c.json'', File ''C''), (''/repo/.ai-handoff/tasks/a.json'', File ''A'')])
     = Inr [example_task ''c'' ''d1'' 1, example_task ''a'' ''d1'' 1, example_task ''b'' ''d2'' 9]"
proof -
  let ?fs = "example_dirs @ [(''/repo/.ai-handoff/tasks/b.json'', File ''B''),
        (''/repo/.ai-handoff/tasks/c.json'', File ''C''), (''/repo/.ai-handoff/tasks/a.json'', File ''A'')]"
  have cwd: "proc_cwd example_host = ''/w''"
    by code_simp
  have files: "fsSafe_readdir (proc_cwd example_host) ''/repo/.ai-handoff/tasks'' ''/repo'' ?fs
      = Inr [''b.json'', ''c.json'', ''a.json'']"
    by code_simp
  have loaded: "loadable example_host ''/repo/.ai-handoff/tasks'' ''/repo'' ?fs
      (filter (\<lambda>f. endsWith f ''.json'') [''b.json'', ''c.json'', ''a.json''])
      = [example_task ''b'' ''d2'' 9, example_task ''c'' ''d1'' 1, example_task ''a'' ''d1'' 1]"
    by code_simp
  have times: "created_time example_host (example_task ''b'' ''d2'' 9) = Some 2000"
    "created_time example_host (example_task ''c'' ''d1'' 1) = Some 1000"
    "created_time example_host (example_task ''a'' ''d1'' 1) = Some 1000"
    by code_simp+
  have valid: "\<forall>t \<in> set (loadable example_host ''/repo/.ai-handoff/tasks'' ''/repo'' ?fs
      (filter (\<lambda>f. endsWith f ''.json'') [''b.json'', ''c.json'', ''a.json''])). created_time example_host t \<noteq> None"
    unfolding loaded using times by simp
  from loadTasks_by_created [OF files valid] files show ?thesis
    unfolding loaded by (simp add: cwd ctime_def times)
qed

text \<open>
  C7, as stated, fails. The directory lists \<open>b.json\<close>, \<open>c.json\<close>, \<open>a.json\<close>; task \<open>b\<close>
  has priority 9 and the later date, tasks \<open>c\<close> and \<open>a\<close> have priority 1 and the same
  earlier date. The code returns \<open>c\<close>, \<open>a\<close>, \<open>b\<close>; the order of the claim is \<open>b\<close>, \<open>a\<close>,
  \<open>c\<close>.
\<close>

theorem loadTasks_priority_counterexample:
  "loadTasks example_host ''/repo/.ai-handoff/tasks'' ''/repo''
     (example_dirs @ [(''/repo/.ai-handoff/tasks/b.json'', File ''B''),
        (''/repo/.ai-handoff/tasks/c.json'', File ''C''), (''/repo/.ai-handoff/tasks/a.json'', File ''A'')])
     = Inr [example_task ''c'' ''d1'' 1, example_task ''a'' ''d1'' 1, example_task ''b'' ''d2'' 9]
   \<and> \<not> spec_ordered example_host
         [example_task ''c'' ''d1'' 1, example_task ''a'' ''d1'' 1, example_task ''b'' ''d2'' 9]
   \<and> spec_ordered example_host
         [example_task ''b'' ''d2'' 9, example_task ''a'' ''d1'' 1, example_task ''c'' ''d1'' 1]"
  by code_simp

subsection \<open>Task files that fail validation\<close>




end
